theory Spec2Isabelle
  imports Main "HOL-Library.Word"
begin

section \<open>The bz2 decoder element: data model\<close>

text \<open>
  The element of \<^verbatim>\<open>gstbz2dec.c\<close> wraps a bzlib decompression session. bzlib and the
  GStreamer pads are libraries outside the repository: the decompression step, the start
  of a session, the allocation of an output buffer and the push of a buffer are taken as
  parameters (\<open>externals\<close>), and the model is the element's own code over them.
\<close>

type_synonym byte = "8 word"

text \<open>
  bzlib's \<^verbatim>\<open>bz_stream\<close>. \<open>next_in\<close> is the input cursor, modelled as the bytes from
  the cursor onwards; \<open>next_out\<close> is the output cursor, modelled as the bytes written
  to the output buffer since it was bound. \<open>state\<close> is bzlib's private session, \<open>None\<close>
  for the null pointer.
\<close>

record 'z bz_stream =
  next_in :: "byte list"
  avail_in :: "32 word"
  total_in_lo32 :: "32 word"
  total_in_hi32 :: "32 word"
  next_out :: "byte list"
  avail_out :: "32 word"
  total_out_lo32 :: "32 word"
  total_out_hi32 :: "32 word"
  state :: "'z option"

text \<open>\<^verbatim>\<open>struct _GstBz2dec\<close>: \<open>guint buffer_size; gboolean ready; bz_stream stream; guint64 offset\<close>.\<close>

record 'z GstBz2dec =
  buffer_size :: "32 word"
  ready :: bool
  stream :: "'z bz_stream"
  offset :: "64 word"

text \<open>A \<^verbatim>\<open>GstBuffer\<close>: its bytes, \<^verbatim>\<open>GST_BUFFER_SIZE\<close> (a guint) and \<^verbatim>\<open>GST_BUFFER_OFFSET\<close> (a guint64).\<close>

record GstBuffer =
  GST_BUFFER_DATA :: "byte list"
  GST_BUFFER_SIZE :: "32 word"
  GST_BUFFER_OFFSET :: "64 word"

datatype GstFlowReturn =
    GST_FLOW_RESEND
  | GST_FLOW_OK
  | GST_FLOW_NOT_LINKED
  | GST_FLOW_WRONG_STATE
  | GST_FLOW_UNEXPECTED
  | GST_FLOW_NOT_NEGOTIATED
  | GST_FLOW_ERROR
  | GST_FLOW_NOT_SUPPORTED

text \<open>The three messages the element posts with \<^verbatim>\<open>GST_ELEMENT_ERROR\<close>.\<close>

datatype element_error =
    Decompressor_not_ready
  | Failed_to_decompress int
  | Failed_to_start

text \<open>
  The collaborators. \<open>bz_start\<close> is what \<^verbatim>\<open>BZ2_bzDecompressInit\<close> gives: its return code
  and the fresh session. \<open>bz_step z xs c\<close> is one \<^verbatim>\<open>BZ2_bzDecompress\<close> on the session
  \<open>z\<close> with the input window \<open>xs\<close> and \<open>c\<close> bytes of output space: the return code, the
  number of input bytes consumed, the bytes produced and the session afterwards.
  \<open>pad_alloc\<close> and \<open>pad_push\<close> are \<^verbatim>\<open>gst_pad_alloc_buffer\<close> and \<^verbatim>\<open>gst_pad_push\<close> on the
  source pad, over a state \<open>'d\<close> of the downstream peer. \<open>pad_alloc d off n\<close> is asked for
  \<open>n\<close> bytes at the offset \<open>off\<close> and gives the flow, the buffer put in \<^verbatim>\<open>out\<close> and the
  peer afterwards; the size of that buffer is the peer's choice.
\<close>

record ('z, 'd) externals =
  bz_start :: "int \<times> 'z"
  bz_step :: "'z \<Rightarrow> byte list \<Rightarrow> nat \<Rightarrow> int \<times> nat \<times> byte list \<times> 'z"
  pad_alloc :: "'d \<Rightarrow> 64 word \<Rightarrow> 32 word \<Rightarrow> GstFlowReturn \<times> GstBuffer \<times> 'd"
  pad_push :: "'d \<Rightarrow> GstBuffer \<Rightarrow> GstFlowReturn \<times> 'd"

text \<open>
  What one call of the chain function does: the flow it returns, the element and the
  downstream peer afterwards, the buffers handed to \<^verbatim>\<open>gst_pad_push\<close> in order, the
  messages posted, the number of \<^verbatim>\<open>BZ2_bzDecompress\<close> calls made and the last value
  of the local \<^verbatim>\<open>r\<close>.
\<close>

record ('z, 'd) outcome =
  flow :: GstFlowReturn
  dec :: "'z GstBz2dec"
  down :: 'd
  pushed :: "GstBuffer list"
  posted :: "element_error list"
  steps :: nat
  code :: int

section \<open>bzlib's interface\<close>

definition BZ_OK :: int where
  "BZ_OK = 0"

definition BZ_STREAM_END :: int where
  "BZ_STREAM_END = 4"

definition BZ_SEQUENCE_ERROR :: int where
  "BZ_SEQUENCE_ERROR = - 1"

definition BZ_PARAM_ERROR :: int where
  "BZ_PARAM_ERROR = - 2"

definition BZ_DATA_ERROR :: int where
  "BZ_DATA_ERROR = - 4"

text \<open>The stream after \<^verbatim>\<open>memset (&b->stream, 0, sizeof (b->stream))\<close>.\<close>

definition zero_stream :: "'z bz_stream" where
  "zero_stream = \<lparr>next_in = [], avail_in = 0, total_in_lo32 = 0, total_in_hi32 = 0,
     next_out = [], avail_out = 0, total_out_lo32 = 0, total_out_hi32 = 0, state = None\<rparr>"

text \<open>
  \<^verbatim>\<open>BZ2_bzDecompressInit (&b->stream, 0, 0)\<close>: on \<^verbatim>\<open>BZ_OK\<close> the stream holds the fresh
  session and its four byte counters are zero; otherwise the stream is untouched.
\<close>

definition BZ2_bzDecompressInit ::
  "('z, 'd) externals \<Rightarrow> 'z bz_stream \<Rightarrow> int \<times> 'z bz_stream" where
  "BZ2_bzDecompressInit e s =
     (case bz_start e of (r, z) \<Rightarrow>
        if r = BZ_OK
        then (r, s\<lparr>total_in_lo32 := 0, total_in_hi32 := 0,
                   total_out_lo32 := 0, total_out_hi32 := 0, state := Some z\<rparr>)
        else (r, s))"

text \<open>The input window of a stream: the \<open>avail_in\<close> bytes at \<open>next_in\<close>.\<close>

definition window :: "'z bz_stream \<Rightarrow> byte list" where
  "window s = take (unat (avail_in s)) (next_in s)"

text \<open>
  \<^verbatim>\<open>BZ2_bzDecompress (&b->stream)\<close>: the step sees the \<open>avail_in\<close> bytes at \<open>next_in\<close> and
  \<open>avail_out\<close> bytes of space at \<open>next_out\<close>; bzlib advances both cursors, lowers both
  counts and adds to the 64-bit totals, kept as two 32-bit halves. On a null session
  it returns \<^verbatim>\<open>BZ_PARAM_ERROR\<close>.
\<close>

definition BZ2_bzDecompress ::
  "('z, 'd) externals \<Rightarrow> 'z bz_stream \<Rightarrow> int \<times> 'z bz_stream" where
  "BZ2_bzDecompress e s =
     (case state s of
        None \<Rightarrow> (BZ_PARAM_ERROR, s)
      | Some z \<Rightarrow>
          (case bz_step e z (window s) (unat (avail_out s)) of
             (r, n, out, z') \<Rightarrow>
               (r, s\<lparr>next_in := drop n (next_in s),
                     avail_in := avail_in s - of_nat n,
                     total_in_lo32 := total_in_lo32 s + of_nat n,
                     total_in_hi32 := total_in_hi32 s
                        + of_nat ((unat (total_in_lo32 s) + n) div 2 ^ 32),
                     next_out := next_out s @ out,
                     avail_out := avail_out s - of_nat (length out),
                     total_out_lo32 := total_out_lo32 s + of_nat (length out),
                     total_out_hi32 := total_out_hi32 s
                        + of_nat ((unat (total_out_lo32 s) + length out) div 2 ^ 32),
                     state := Some z'\<rparr>)))"

section \<open>The element's functions\<close>

text \<open>
  \<^verbatim>\<open>gst_bz2dec_decompress_end\<close>. \<^verbatim>\<open>BZ2_bzDecompressEnd\<close> frees the session; whatever it
  leaves in the stream, the \<^verbatim>\<open>memset\<close> that follows overwrites it.
\<close>

definition gst_bz2dec_decompress_end :: "'z GstBz2dec \<Rightarrow> 'z GstBz2dec" where
  "gst_bz2dec_decompress_end b =
     (if ready b then b\<lparr>stream := zero_stream, ready := False\<rparr> else b)"

text \<open>\<^verbatim>\<open>gst_bz2dec_decompress_init\<close>, with the messages it posts.\<close>

definition gst_bz2dec_decompress_init ::
  "('z, 'd) externals \<Rightarrow> 'z GstBz2dec \<Rightarrow> 'z GstBz2dec \<times> element_error list" where
  "gst_bz2dec_decompress_init e b =
     (let b1 = gst_bz2dec_decompress_end b;
          b2 = b1\<lparr>offset := 0\<rparr>
      in case BZ2_bzDecompressInit e (stream b2) of (r, s) \<Rightarrow>
           if r = BZ_OK
           then (b2\<lparr>stream := s, ready := True\<rparr>, [])
           else (b2\<lparr>stream := s, ready := False\<rparr>, [Failed_to_start]))"

text \<open>
  One pass through the body of \<^verbatim>\<open>while (r != BZ_STREAM_END)\<close> in \<^verbatim>\<open>gst_bz2dec_chain\<close>.
  \<open>Inl\<close> is a pass that leaves the function or the loop (the two \<^verbatim>\<open>return fr\<close>, the
  \<^verbatim>\<open>return GST_FLOW_ERROR\<close> and the \<^verbatim>\<open>break\<close>); \<open>Inr\<close> is a pass that pushed a buffer and
  goes round again, with the buffer, the element, the peer and the new \<^verbatim>\<open>r\<close>.
  The output space of the step is \<^verbatim>\<open>GST_BUFFER_SIZE (out)\<close> of the buffer the allocation
  gave, and the buffer pushed holds the bytes the step wrote, with that size lowered by
  \<^verbatim>\<open>avail_out\<close>.
  The body is entered with \<^verbatim>\<open>r == BZ_OK\<close> only (the initial value, or the return code
  of a pass that went round), which is the \<open>code\<close> of a pass that fails to allocate.
\<close>

definition chain_iter ::
  "('z, 'd) externals \<Rightarrow> 'z GstBz2dec \<Rightarrow> 'd
     \<Rightarrow> ('z, 'd) outcome + (GstBuffer \<times> 'z GstBz2dec \<times> 'd \<times> int)" where
  "chain_iter e b d =
     (case pad_alloc e d (offset b) (buffer_size b) of (fr, out0, d1) \<Rightarrow>
        if fr \<noteq> GST_FLOW_OK
        then (case gst_bz2dec_decompress_init e b of (b', msgs) \<Rightarrow>
                Inl \<lparr>flow = fr, dec = b', down = d1, pushed = [], posted = msgs,
                     steps = 0, code = BZ_OK\<rparr>)
        else
          (let out_size = GST_BUFFER_SIZE out0;
               s1 = (stream b)\<lparr>next_out := [], avail_out := out_size\<rparr>
           in case BZ2_bzDecompress e s1 of (r, s2) \<Rightarrow>
                if r \<noteq> BZ_OK \<and> r \<noteq> BZ_STREAM_END
                then (case gst_bz2dec_decompress_init e (b\<lparr>stream := s2\<rparr>) of (b', msgs) \<Rightarrow>
                        Inl \<lparr>flow = GST_FLOW_ERROR, dec = b', down = d1, pushed = [],
                             posted = Failed_to_decompress r # msgs, steps = 1, code = r\<rparr>)
                else if avail_out s2 \<ge> out_size
                then Inl \<lparr>flow = GST_FLOW_OK, dec = b\<lparr>stream := s2\<rparr>, down = d1,
                          pushed = [], posted = [], steps = 1, code = r\<rparr>
                else
                  (let n = out_size - avail_out s2;
                       out = \<lparr>GST_BUFFER_DATA = next_out s2, GST_BUFFER_SIZE = n,
                              GST_BUFFER_OFFSET = ucast (total_out_lo32 s2 - n)\<rparr>
                   in case pad_push e d1 out of (fr2, d2) \<Rightarrow>
                        if fr2 \<noteq> GST_FLOW_OK
                        then Inl \<lparr>flow = fr2, dec = b\<lparr>stream := s2\<rparr>, down = d2,
                                  pushed = [out], posted = [], steps = 1, code = r\<rparr>
                        else Inr (out, b\<lparr>stream := s2, offset := offset b + ucast n\<rparr>,
                                  d2, r))))"

text \<open>
  The allocation a pass makes, and the output space it gets: the size of the buffer the
  allocation gave.
\<close>

definition pass_alloc ::
  "('z, 'd) externals \<Rightarrow> 'z GstBz2dec \<Rightarrow> 'd \<Rightarrow> GstFlowReturn \<times> GstBuffer \<times> 'd" where
  "pass_alloc e b d = pad_alloc e d (offset b) (buffer_size b)"

definition pass_space :: "('z, 'd) externals \<Rightarrow> 'z GstBz2dec \<Rightarrow> 'd \<Rightarrow> 32 word" where
  "pass_space e b d = GST_BUFFER_SIZE (fst (snd (pass_alloc e b d)))"

text \<open>
  The loop. It has no bound of its own, so it is a partial function: \<open>None\<close> is a loop
  that never leaves. A pass that goes round again puts its buffer in front of the
  buffers of the passes after it.
\<close>

partial_function (option) chain_loop ::
  "('z, 'd) externals \<Rightarrow> 'z GstBz2dec \<Rightarrow> 'd \<Rightarrow> int \<Rightarrow> ('z, 'd) outcome option" where
  "chain_loop e b d r =
     (if r = BZ_STREAM_END
      then Some \<lparr>flow = GST_FLOW_OK, dec = b, down = d, pushed = [], posted = [],
                 steps = 0, code = r\<rparr>
      else (case chain_iter e b d of
              Inl fin \<Rightarrow> Some fin
            | Inr (out, b', d', r') \<Rightarrow>
                Option.bind (chain_loop e b' d' r')
                  (\<lambda>res. Some (res\<lparr>pushed := out # pushed res,
                                    steps := Suc (steps res)\<rparr>))))"

declare chain_loop.simps [code]

text \<open>
  \<^verbatim>\<open>b->stream.next_in = GST_BUFFER_DATA (in); b->stream.avail_in = GST_BUFFER_SIZE (in)\<close>.
\<close>

definition bind_input :: "'z GstBz2dec \<Rightarrow> GstBuffer \<Rightarrow> 'z GstBz2dec" where
  "bind_input b inb =
     b\<lparr>stream := (stream b)\<lparr>next_in := GST_BUFFER_DATA inb, avail_in := GST_BUFFER_SIZE inb\<rparr>\<rparr>"

text \<open>\<^verbatim>\<open>gst_bz2dec_chain\<close> on the input buffer \<open>inb\<close>.\<close>

definition gst_bz2dec_chain ::
  "('z, 'd) externals \<Rightarrow> 'z GstBz2dec \<Rightarrow> 'd \<Rightarrow> GstBuffer \<Rightarrow> ('z, 'd) outcome option" where
  "gst_bz2dec_chain e b d inb =
     (if \<not> ready b
      then Some \<lparr>flow = GST_FLOW_ERROR, dec = b, down = d, pushed = [],
                 posted = [Decompressor_not_ready], steps = 0, code = BZ_OK\<rparr>
      else chain_loop e (bind_input b inb) d BZ_OK)"

section \<open>The caller and the contract of the decompression step\<close>

text \<open>
  The upstream caller, from the spec's upstream contract: it delivers the input buffers
  in order, one chain call each, and stops at the first call that does not return
  \<^verbatim>\<open>GST_FLOW_OK\<close>. The pushed buffers, the messages and the step counts of the calls
  are put end to end; the rest is as the last call left it.
\<close>

fun feed_chunks ::
  "('z, 'd) externals \<Rightarrow> 'z GstBz2dec \<Rightarrow> 'd \<Rightarrow> GstBuffer list \<Rightarrow> ('z, 'd) outcome option" where
  "feed_chunks e b d [] =
     Some \<lparr>flow = GST_FLOW_OK, dec = b, down = d, pushed = [], posted = [],
           steps = 0, code = BZ_OK\<rparr>"
| "feed_chunks e b d (inb # rest) =
     (case gst_bz2dec_chain e b d inb of
        None \<Rightarrow> None
      | Some o1 \<Rightarrow>
          if flow o1 \<noteq> GST_FLOW_OK \<or> rest = [] then Some o1
          else (case feed_chunks e (dec o1) (down o1) rest of
                  None \<Rightarrow> None
                | Some o2 \<Rightarrow>
                    Some (o2\<lparr>pushed := pushed o1 @ pushed o2,
                              posted := posted o1 @ posted o2,
                              steps := steps o1 + steps o2\<rparr>)))"

text \<open>An input buffer holding the bytes \<open>xs\<close>, and the bytes a buffer declares.\<close>

definition in_chunk :: "byte list \<Rightarrow> GstBuffer" where
  "in_chunk xs =
     \<lparr>GST_BUFFER_DATA = xs, GST_BUFFER_SIZE = of_nat (length xs), GST_BUFFER_OFFSET = 0\<rparr>"

definition buffer_bytes :: "GstBuffer \<Rightarrow> byte list" where
  "buffer_bytes buf = take (unat (GST_BUFFER_SIZE buf)) (GST_BUFFER_DATA buf)"

text \<open>The loop states at which a pass of the loop begins: the first one, and the one
  after each pass that pushed its buffer and went round again.\<close>

inductive loop_reaches ::
  "('z, 'd) externals \<Rightarrow> 'z GstBz2dec \<Rightarrow> 'd \<Rightarrow> int \<Rightarrow> 'z GstBz2dec \<Rightarrow> 'd \<Rightarrow> int \<Rightarrow> bool"
  for e where
    here: "loop_reaches e b d r b d r"
  | round: "r \<noteq> BZ_STREAM_END \<Longrightarrow> chain_iter e b d = Inr (out, b1, d1, r1)
            \<Longrightarrow> loop_reaches e b1 d1 r1 b' d' r' \<Longrightarrow> loop_reaches e b d r b' d' r'"

text \<open>The buffers one pass of the loop hands to \<^verbatim>\<open>gst_pad_push\<close>: none or one.\<close>

definition pass_pushed :: "('z, 'd) externals \<Rightarrow> 'z GstBz2dec \<Rightarrow> 'd \<Rightarrow> GstBuffer list" where
  "pass_pushed e b d =
     (case chain_iter e b d of Inl fin \<Rightarrow> pushed fin | Inr (out, b', d', r') \<Rightarrow> [out])"

text \<open>
  What bzlib's interface promises of a step, whatever the compressed format.
  A step consumes no more than its input window and produces no more than its output
  space.
\<close>

definition bz_bounded ::
  "('z \<Rightarrow> byte list \<Rightarrow> nat \<Rightarrow> int \<times> nat \<times> byte list \<times> 'z) \<Rightarrow> bool" where
  "bz_bounded P \<longleftrightarrow>
     (\<forall>z xs c. case P z xs c of (r, n, out, z') \<Rightarrow> n \<le> length xs \<and> length out \<le> c)"

text \<open>
  A step that returned \<^verbatim>\<open>BZ_OK\<close> can be resumed: a step over a larger window (more input
  behind the window, more output space) is the step over the smaller one, followed,
  when that returned \<^verbatim>\<open>BZ_OK\<close>, by a step over what is left of the larger window.
\<close>

definition bz_resumable ::
  "('z \<Rightarrow> byte list \<Rightarrow> nat \<Rightarrow> int \<times> nat \<times> byte list \<times> 'z) \<Rightarrow> bool" where
  "bz_resumable P \<longleftrightarrow>
     (\<forall>z xs ys c k.
        P z (xs @ ys) (c + k) =
          (case P z xs c of (r1, n1, o1, z1) \<Rightarrow>
             if r1 = BZ_OK
             then (case P z1 (drop n1 xs @ ys) (c - length o1 + k) of
                     (r2, n2, o2, z2) \<Rightarrow> (r2, n1 + n2, o1 @ o2, z2))
             else (r1, n1, o1, z1)))"

text \<open>
  A step returns \<^verbatim>\<open>BZ_OK\<close> with output space left only when it has used up its input, and
  the session then makes no progress until it is given input.
\<close>

definition bz_greedy ::
  "('z \<Rightarrow> byte list \<Rightarrow> nat \<Rightarrow> int \<times> nat \<times> byte list \<times> 'z) \<Rightarrow> bool" where
  "bz_greedy P \<longleftrightarrow>
     (\<forall>z xs c r n out z'. P z xs c = (r, n, out, z') \<and> r = BZ_OK \<and> length out < c \<longrightarrow>
        n = length xs \<and> (\<forall>c'. P z' [] c' = (BZ_OK, 0, [], z')))"

text \<open>After \<^verbatim>\<open>BZ_STREAM_END\<close> the session is idle: every further step is an error.\<close>

definition bz_idle_after_end ::
  "('z \<Rightarrow> byte list \<Rightarrow> nat \<Rightarrow> int \<times> nat \<times> byte list \<times> 'z) \<Rightarrow> bool" where
  "bz_idle_after_end P \<longleftrightarrow>
     (\<forall>z xs c r n out z' ys c'. P z xs c = (r, n, out, z') \<and> r = BZ_STREAM_END \<longrightarrow>
        fst (P z' ys c') \<noteq> BZ_OK \<and> fst (P z' ys c') \<noteq> BZ_STREAM_END)"

definition bz_streaming ::
  "('z \<Rightarrow> byte list \<Rightarrow> nat \<Rightarrow> int \<times> nat \<times> byte list \<times> 'z) \<Rightarrow> bool" where
  "bz_streaming P \<longleftrightarrow> bz_bounded P \<and> bz_resumable P \<and> bz_greedy P \<and> bz_idle_after_end P"

text \<open>
  A budget of output: a number \<open>pot z xs\<close> for a session and the input left to it, from
  which every byte a \<^verbatim>\<open>BZ_OK\<close> step produces is taken.
\<close>

definition bz_budget ::
  "('z \<Rightarrow> byte list \<Rightarrow> nat \<Rightarrow> int \<times> nat \<times> byte list \<times> 'z) \<Rightarrow> ('z \<Rightarrow> byte list \<Rightarrow> nat) \<Rightarrow> bool" where
  "bz_budget P pot \<longleftrightarrow>
     (\<forall>z xs c. case P z xs c of (r, n, out, z') \<Rightarrow>
        r = BZ_OK \<longrightarrow> pot z' (drop n xs) + length out \<le> pot z xs)"

text \<open>A downstream peer that never refuses: every allocation and every push succeeds.\<close>

definition accepting :: "('z, 'd) externals \<Rightarrow> bool" where
  "accepting e \<longleftrightarrow>
     (\<forall>d off n. fst (pad_alloc e d off n) = GST_FLOW_OK)
     \<and> (\<forall>d buf. fst (pad_push e d buf) = GST_FLOW_OK)"

text \<open>
  The size of the buffers the peer allocates. The spec's allocator gives a buffer of
  exactly the size asked for; a weaker condition is that it gives no empty buffer when
  asked for a size that is not zero.
\<close>

definition exact_alloc :: "('z, 'd) externals \<Rightarrow> bool" where
  "exact_alloc e \<longleftrightarrow>
     (\<forall>d off n. fst (pad_alloc e d off n) = GST_FLOW_OK \<longrightarrow>
        GST_BUFFER_SIZE (fst (snd (pad_alloc e d off n))) = n)"

definition alloc_nonempty :: "('z, 'd) externals \<Rightarrow> bool" where
  "alloc_nonempty e \<longleftrightarrow>
     (\<forall>d off n. fst (pad_alloc e d off n) = GST_FLOW_OK \<and> n \<noteq> 0 \<longrightarrow>
        GST_BUFFER_SIZE (fst (snd (pad_alloc e d off n))) \<noteq> 0)"

text \<open>
  The buffers a run of decompressed bytes \<open>ys\<close> makes when cut into buffers of at most
  \<open>n\<close> bytes, the first at the 32-bit count \<open>t\<close>.
\<close>

function chunks_of :: "32 word \<Rightarrow> nat \<Rightarrow> byte list \<Rightarrow> GstBuffer list" where
  "chunks_of t n ys =
     (if n = 0 \<or> ys = [] then []
      else \<lparr>GST_BUFFER_DATA = take n ys, GST_BUFFER_SIZE = of_nat (min n (length ys)),
            GST_BUFFER_OFFSET = ucast t\<rparr>
           # chunks_of (t + of_nat (min n (length ys))) n (drop n ys))"
  by pat_completeness auto
termination
  by (relation "measure (\<lambda>(t, n, ys). length ys)") auto

declare chunks_of.simps [simp del]

text \<open>
  An element in the middle of a stream: ready, with buffer size \<open>B\<close>, on the session
  \<open>z\<close> with the input window \<open>W\<close>, the 32-bit output count \<open>t\<close> and the offset \<open>off\<close>.
\<close>

definition decoding ::
  "'z GstBz2dec \<Rightarrow> 32 word \<Rightarrow> 'z \<Rightarrow> byte list \<Rightarrow> 32 word \<Rightarrow> 64 word \<Rightarrow> bool" where
  "decoding b B z W t off \<longleftrightarrow>
     ready b \<and> buffer_size b = B \<and> state (stream b) = Some z \<and> window (stream b) = W
     \<and> total_out_lo32 (stream b) = t \<and> offset b = off"

text \<open>
  Offsets that follow the 32-bit count \<open>t\<close>: each buffer carries the count before it,
  and the count after it is the count before plus its size, modulo \<open>2 ^ 32\<close>.
\<close>

fun offsets_from :: "32 word \<Rightarrow> GstBuffer list \<Rightarrow> bool" where
  "offsets_from t [] \<longleftrightarrow> True"
| "offsets_from t (buf # bufs) \<longleftrightarrow>
     GST_BUFFER_OFFSET buf = ucast t \<and> offsets_from (t + GST_BUFFER_SIZE buf) bufs"

text \<open>The 32-bit count after a list of buffers.\<close>

fun count_after :: "32 word \<Rightarrow> GstBuffer list \<Rightarrow> 32 word" where
  "count_after t [] = t"
| "count_after t (buf # bufs) = count_after (t + GST_BUFFER_SIZE buf) bufs"

section \<open>Example collaborators\<close>

text \<open>
  A small stored format to run the element on: a byte \<open>0\<close> ends the stream, a byte
  \<open>255\<close> is corrupt, every other byte stands for itself.
\<close>

datatype stored = Running | Idle

fun stored_step :: "stored \<Rightarrow> byte list \<Rightarrow> nat \<Rightarrow> int \<times> nat \<times> byte list \<times> stored" where
  "stored_step Idle xs c = (BZ_SEQUENCE_ERROR, 0, [], Idle)"
| "stored_step Running [] c = (BZ_OK, 0, [], Running)"
| "stored_step Running (x # xs) c =
     (if x = 0 then (BZ_STREAM_END, 1, [], Idle)
      else if x = 255 then (BZ_DATA_ERROR, 0, [], Idle)
      else if c = 0 then (BZ_OK, 0, [], Running)
      else (case stored_step Running xs (c - 1) of
              (r, n, out, z) \<Rightarrow> (r, Suc n, x # out, z)))"

text \<open>A session that has \<open>k\<close> zero bytes left to give and needs no input for them.\<close>

fun zeros_step :: "nat \<Rightarrow> byte list \<Rightarrow> nat \<Rightarrow> int \<times> nat \<times> byte list \<times> nat" where
  "zeros_step k xs c =
     (if k \<le> c then (BZ_STREAM_END, length xs, replicate k 0, 0)
      else (BZ_OK, 0, replicate c 0, k - c))"

text \<open>A step that always gives one more byte and never ends.\<close>

fun gush_step :: "unit \<Rightarrow> byte list \<Rightarrow> nat \<Rightarrow> int \<times> nat \<times> byte list \<times> unit" where
  "gush_step z xs c = (BZ_OK, min 1 (length xs), (if c = 0 then [] else [7]), z)"

text \<open>
  Downstream peers whose state counts the buffers accepted: one that takes everything,
  and one that takes \<open>k\<close> buffers and is not linked for the pushes after them. Both
  allocate a buffer of the size and at the offset asked for. A third allocates twice
  the size asked for.
\<close>

definition sink_alloc :: "nat \<Rightarrow> 64 word \<Rightarrow> 32 word \<Rightarrow> GstFlowReturn \<times> GstBuffer \<times> nat" where
  "sink_alloc d off n =
     (GST_FLOW_OK,
      \<lparr>GST_BUFFER_DATA = replicate (unat n) 0, GST_BUFFER_SIZE = n, GST_BUFFER_OFFSET = off\<rparr>,
      d)"

definition wide_alloc :: "nat \<Rightarrow> 64 word \<Rightarrow> 32 word \<Rightarrow> GstFlowReturn \<times> GstBuffer \<times> nat" where
  "wide_alloc d off n =
     (GST_FLOW_OK,
      \<lparr>GST_BUFFER_DATA = replicate (unat (2 * n)) 0, GST_BUFFER_SIZE = 2 * n,
       GST_BUFFER_OFFSET = off\<rparr>,
      d)"

definition sink_push :: "nat \<Rightarrow> GstBuffer \<Rightarrow> GstFlowReturn \<times> nat" where
  "sink_push d buf = (GST_FLOW_OK, Suc d)"

definition unlinked_push :: "nat \<Rightarrow> nat \<Rightarrow> GstBuffer \<Rightarrow> GstFlowReturn \<times> nat" where
  "unlinked_push k d buf = (if d < k then (GST_FLOW_OK, Suc d) else (GST_FLOW_NOT_LINKED, d))"

definition stored_env :: "(stored, nat) externals" where
  "stored_env = \<lparr>bz_start = (BZ_OK, Running), bz_step = stored_step,
                  pad_alloc = sink_alloc, pad_push = sink_push\<rparr>"

definition unlinked_env :: "(stored, nat) externals" where
  "unlinked_env = \<lparr>bz_start = (BZ_OK, Running), bz_step = stored_step,
                    pad_alloc = sink_alloc, pad_push = unlinked_push 1\<rparr>"

definition zeros_env :: "(nat, nat) externals" where
  "zeros_env = \<lparr>bz_start = (BZ_OK, 3 * 2 ^ 31), bz_step = zeros_step,
                 pad_alloc = sink_alloc, pad_push = sink_push\<rparr>"

definition wide_env :: "(stored, nat) externals" where
  "wide_env = \<lparr>bz_start = (BZ_OK, Running), bz_step = stored_step,
                pad_alloc = wide_alloc, pad_push = sink_push\<rparr>"

definition gush_env :: "(unit, nat) externals" where
  "gush_env = \<lparr>bz_start = (BZ_OK, ()), bz_step = gush_step,
                pad_alloc = sink_alloc, pad_push = sink_push\<rparr>"

text \<open>Forty bytes of a known pattern.\<close>

definition pattern40 :: "byte list" where
  "pattern40 = [8, 15, 22, 29, 36, 43, 50, 57, 64, 71, 78, 85, 92, 99, 106, 113, 120, 127, 134, 141,
     148, 155, 162, 169, 176, 183, 190, 197, 4, 11, 18, 25, 32, 39, 46, 53, 60, 67, 74, 81]"

text \<open>
  The element as \<^verbatim>\<open>gst_bz2dec_init\<close> leaves it, with \<open>n\<close> for the \<^verbatim>\<open>buffer_size\<close>
  property: the zeroed instance, then \<^verbatim>\<open>gst_bz2dec_decompress_init\<close>.
\<close>

definition fresh :: "32 word \<Rightarrow> 'z GstBz2dec" where
  "fresh n = \<lparr>buffer_size = n, ready = False, stream = zero_stream, offset = 0\<rparr>"

definition started :: "('z, 'd) externals \<Rightarrow> 32 word \<Rightarrow> 'z GstBz2dec" where
  "started e n = fst (gst_bz2dec_decompress_init e (fresh n))"

section \<open>Unfolding the loop\<close>

lemmas bz_codes =
  BZ_OK_def BZ_STREAM_END_def BZ_SEQUENCE_ERROR_def BZ_PARAM_ERROR_def BZ_DATA_ERROR_def

lemmas element_defs =
  gst_bz2dec_decompress_init_def gst_bz2dec_decompress_end_def BZ2_bzDecompressInit_def
  BZ2_bzDecompress_def window_def zero_stream_def gst_bz2dec_chain_def bind_input_def
  chain_iter_def started_def fresh_def in_chunk_def Let_def

lemmas stored_defs =
  stored_env_def unlinked_env_def zeros_env_def gush_env_def wide_env_def
  sink_alloc_def wide_alloc_def sink_push_def unlinked_push_def

lemma chain_loop_end:
  "chain_loop e b d BZ_STREAM_END =
     Some \<lparr>flow = GST_FLOW_OK, dec = b, down = d, pushed = [], posted = [],
           steps = 0, code = BZ_STREAM_END\<rparr>"
  by (subst chain_loop.simps) simp

lemma chain_loop_Inl:
  "r \<noteq> BZ_STREAM_END \<Longrightarrow> chain_iter e b d = Inl fin \<Longrightarrow> chain_loop e b d r = Some fin"
  by (subst chain_loop.simps) simp

lemma chain_loop_Inr:
  "r \<noteq> BZ_STREAM_END \<Longrightarrow> chain_iter e b d = Inr (out, b', d', r') \<Longrightarrow>
   chain_loop e b d r =
     Option.bind (chain_loop e b' d' r')
       (\<lambda>res. Some (res\<lparr>pushed := out # pushed res, steps := Suc (steps res)\<rparr>))"
  by (subst chain_loop.simps) simp

lemmas chain_loop_unfold =
  chain_loop_end [unfolded BZ_STREAM_END_def]
  chain_loop_Inl [unfolded BZ_STREAM_END_def]
  chain_loop_Inr [unfolded BZ_STREAM_END_def]

text \<open>
  Induction over the passes of a loop that returned: the loop was not entered, or its
  first pass left it, or its first pass pushed a buffer and the rest of the loop
  returned.
\<close>

lemma chain_loop_induct [consumes 1, case_names End Exit Round]:
  assumes ret: "chain_loop e b d r = Some res"
    and stop: "\<And>b d. P b d BZ_STREAM_END
        \<lparr>flow = GST_FLOW_OK, dec = b, down = d, pushed = [], posted = [],
         steps = 0, code = BZ_STREAM_END\<rparr>"
    and exit: "\<And>b d r fin. r \<noteq> BZ_STREAM_END \<Longrightarrow> chain_iter e b d = Inl fin \<Longrightarrow> P b d r fin"
    and round: "\<And>b d r out b' d' r' res'.
        r \<noteq> BZ_STREAM_END \<Longrightarrow> chain_iter e b d = Inr (out, b', d', r') \<Longrightarrow>
        chain_loop e b' d' r' = Some res' \<Longrightarrow> P b' d' r' res' \<Longrightarrow>
        P b d r (res'\<lparr>pushed := out # pushed res', steps := Suc (steps res')\<rparr>)"
  shows "P b d r res"
proof -
  have "e = e \<longrightarrow> chain_loop e b d r = Some res \<and> P b d r res"
  proof (rule chain_loop.raw_induct [where P = "\<lambda>e' b d r res.
      e' = e \<longrightarrow> chain_loop e b d r = Some res \<and> P b d r res", OF _ ret], goal_cases)
    case (1 loop e' b d r res)
    show ?case
    proof
      assume e: "e' = e"
      show "chain_loop e b d r = Some res \<and> P b d r res"
      proof (cases "r = BZ_STREAM_END")
        case True
        with "1"(2) stop show ?thesis by (auto simp: chain_loop_end)
      next
        case False
        show ?thesis
        proof (cases "chain_iter e b d")
          case (Inl fin)
          with False "1"(2) e exit [OF False Inl] show ?thesis
            by (simp add: chain_loop_Inl)
        next
          case (Inr t)
          obtain out b' d' r' where t: "t = (out, b', d', r')" by (cases t) auto
          from Inr t have it: "chain_iter e b d = Inr (out, b', d', r')" by simp
          from it e False "1"(2) obtain res' where
            l: "loop e b' d' r' = Some res'" and
            res: "res = res'\<lparr>pushed := out # pushed res', steps := Suc (steps res')\<rparr>"
            by (auto simp: bind_eq_Some_conv)
          from "1"(1) [OF l] have l': "chain_loop e b' d' r' = Some res'" and p: "P b' d' r' res'"
            by simp_all
          from round [OF False it l' p] l' res show ?thesis
            by (simp add: chain_loop_Inr [OF False it])
        qed
      qed
    qed
  qed
  then show ?thesis by simp
qed

section \<open>Teardown\<close>

text \<open>
  C8. Teardown of an element that is not ready changes nothing, teardown never makes
  the element ready, a ready element ends with the zeroed session, and a second
  teardown right after a first changes nothing more.
\<close>

theorem decompress_end_idempotent:
  "(\<not> ready b \<longrightarrow> gst_bz2dec_decompress_end b = b)
   \<and> \<not> ready (gst_bz2dec_decompress_end b)
   \<and> (ready b \<longrightarrow> stream (gst_bz2dec_decompress_end b) = zero_stream)
   \<and> gst_bz2dec_decompress_end (gst_bz2dec_decompress_end b) = gst_bz2dec_decompress_end b"
  by (simp add: gst_bz2dec_decompress_end_def)

theorem decompress_end_idempotent_witness:
  "\<not> ready (fresh 16 :: stored GstBz2dec)
   \<and> gst_bz2dec_decompress_end (fresh 16 :: stored GstBz2dec) = fresh 16
   \<and> ready (started stored_env 16)
   \<and> stream (gst_bz2dec_decompress_end (started stored_env 16)) = zero_stream
   \<and> \<not> ready (gst_bz2dec_decompress_end (started stored_env 16))
   \<and> gst_bz2dec_decompress_end (gst_bz2dec_decompress_end (started stored_env 16))
       = gst_bz2dec_decompress_end (started stored_env 16)"
proof -
  have n: "\<not> ready (fresh 16 :: stored GstBz2dec)"
    by (simp add: fresh_def)
  have r: "ready (started stored_env 16)"
    by (simp add: element_defs stored_defs bz_codes)
  from n r decompress_end_idempotent [of "fresh 16 :: stored GstBz2dec"]
    decompress_end_idempotent [of "started stored_env 16"]
  show ?thesis by simp
qed

section \<open>Buffers pushed and the element not ready\<close>

lemma trim_bounds:
  fixes a B :: "32 word"
  assumes "\<not> B \<le> a"
  shows "B - a \<le> B" and "0 < B - a"
  using assms by unat_arith+

lemma chain_iter_Inr_size:
  assumes "chain_iter e b d = Inr (out, b', d', r')"
  shows "GST_BUFFER_SIZE out \<le> pass_space e b d" and "0 < GST_BUFFER_SIZE out"
    and "fst (pass_alloc e b d) = GST_FLOW_OK"
  using assms
  by (auto simp: chain_iter_def pass_space_def pass_alloc_def Let_def trim_bounds
      split: prod.splits if_splits)

lemma chain_iter_Inl_size:
  assumes "chain_iter e b d = Inl fin" and "buf \<in> set (pushed fin)"
  shows "GST_BUFFER_SIZE buf \<le> pass_space e b d" and "0 < GST_BUFFER_SIZE buf"
    and "fst (pass_alloc e b d) = GST_FLOW_OK"
  using assms
  by (auto simp: chain_iter_def pass_space_def pass_alloc_def Let_def trim_bounds
      split: prod.splits if_splits)

lemma pass_space_exact:
  assumes "exact_alloc e" and "fst (pass_alloc e b d) = GST_FLOW_OK"
  shows "pass_space e b d = buffer_size b"
  using assms by (simp add: exact_alloc_def pass_space_def pass_alloc_def)

text \<open>Whatever the peer allocates, a pass pushes no more than the space it was given.\<close>

lemma pass_pushed_within_space:
  assumes "buf \<in> set (pass_pushed e b d)"
  shows "GST_BUFFER_SIZE buf \<le> pass_space e b d \<and> 0 < GST_BUFFER_SIZE buf"
proof (cases "chain_iter e b d")
  case (Inl fin)
  with assms chain_iter_Inl_size(1,2) [OF Inl, of buf] show ?thesis
    by (simp add: pass_pushed_def)
next
  case (Inr t)
  obtain out b2 d2 r2 where "t = (out, b2, d2, r2)" by (cases t) auto
  with Inr have it: "chain_iter e b d = Inr (out, b2, d2, r2)" by simp
  with assms have "buf = out" by (simp add: pass_pushed_def)
  with chain_iter_Inr_size(1,2) [OF it] show ?thesis by simp
qed

lemma pass_pushed_alloc_ok:
  assumes "buf \<in> set (pass_pushed e b d)"
  shows "fst (pass_alloc e b d) = GST_FLOW_OK"
proof (cases "chain_iter e b d")
  case (Inl fin)
  with assms chain_iter_Inl_size(3) [OF Inl, of buf] show ?thesis
    by (simp add: pass_pushed_def)
next
  case (Inr t)
  obtain out b2 d2 r2 where "t = (out, b2, d2, r2)" by (cases t) auto
  with Inr have "chain_iter e b d = Inr (out, b2, d2, r2)" by simp
  from chain_iter_Inr_size(3) [OF this] show ?thesis .
qed

lemma chain_iter_Inr:
  assumes "chain_iter e b d = Inr (out, b', d', r')"
  shows "buffer_size b' = buffer_size b" and "ready b' = ready b"
    and "GST_BUFFER_OFFSET out = ucast (total_out_lo32 (stream b))"
    and "total_out_lo32 (stream b') = total_out_lo32 (stream b) + GST_BUFFER_SIZE out"
    and "offset b' = offset b + ucast (GST_BUFFER_SIZE out)"
  using assms
  by (auto simp: chain_iter_def Let_def BZ2_bzDecompress_def
      split: prod.splits if_splits option.splits)

lemma loop_reaches_ready:
  assumes "loop_reaches e b d r b' d' r'"
  shows "ready b' = ready b" and "buffer_size b' = buffer_size b"
  using assms
  by (induction rule: loop_reaches.induct) (auto dest: chain_iter_Inr(1,2))

lemma chain_loop_sizes:
  assumes "chain_loop e b d r = Some res" and ex: "exact_alloc e"
  shows "\<forall>buf \<in> set (pushed res). 0 < GST_BUFFER_SIZE buf \<and> GST_BUFFER_SIZE buf \<le> buffer_size b"
  using assms(1)
proof (induction rule: chain_loop_induct)
  case (End b d)
  then show ?case by simp
next
  case (Exit b d r fin)
  show ?case
  proof
    fix buf
    assume "buf \<in> set (pushed fin)"
    from chain_iter_Inl_size [OF Exit(2) this] pass_space_exact [OF ex]
    show "0 < GST_BUFFER_SIZE buf \<and> GST_BUFFER_SIZE buf \<le> buffer_size b" by simp
  qed
next
  case (Round b d r out b' d' r' res')
  then show ?case
    using chain_iter_Inr(1) [OF Round(2)] chain_iter_Inr_size [OF Round(2)]
      pass_space_exact [OF ex, of b d]
    by simp
qed

text \<open>
  C5. The downstream peer allocates buffers of the size asked for. Then every buffer a
  chain call hands to the push has a size of at most the element's \<open>buffer_size\<close>, and
  is not empty: every buffer in the record of a call that returned, and every buffer a
  pass of the loop pushes, whether the call returns or not.
\<close>

theorem pushed_size_le_buffer_size:
  assumes "exact_alloc e"
  shows "(gst_bz2dec_chain e b d inb = Some res \<and> buf \<in> set (pushed res) \<longrightarrow>
      GST_BUFFER_SIZE buf \<le> buffer_size b \<and> 0 < GST_BUFFER_SIZE buf)
   \<and> (loop_reaches e (bind_input b inb) d BZ_OK b' d' r' \<and> buf \<in> set (pass_pushed e b' d') \<longrightarrow>
        GST_BUFFER_SIZE buf \<le> buffer_size b \<and> 0 < GST_BUFFER_SIZE buf)"
proof (rule conjI; rule impI)
  assume a: "gst_bz2dec_chain e b d inb = Some res \<and> buf \<in> set (pushed res)"
  show "GST_BUFFER_SIZE buf \<le> buffer_size b \<and> 0 < GST_BUFFER_SIZE buf"
  proof (cases "ready b")
    case False
    with a show ?thesis by (auto simp: gst_bz2dec_chain_def)
  next
    case True
    with a have "chain_loop e (bind_input b inb) d BZ_OK = Some res"
      by (simp add: gst_bz2dec_chain_def)
    from chain_loop_sizes [OF this assms] a show ?thesis
      by (simp add: bind_input_def)
  qed
next
  assume a: "loop_reaches e (bind_input b inb) d BZ_OK b' d' r' \<and> buf \<in> set (pass_pushed e b' d')"
  then have B: "buffer_size b' = buffer_size b"
    using loop_reaches_ready(2) [of e "bind_input b inb" d BZ_OK b' d' r']
    by (simp add: bind_input_def)
  from a have mem: "buf \<in> set (pass_pushed e b' d')" by simp
  from pass_pushed_within_space [OF mem]
    pass_space_exact [OF assms pass_pushed_alloc_ok [OF mem]] B
  show "GST_BUFFER_SIZE buf \<le> buffer_size b \<and> 0 < GST_BUFFER_SIZE buf" by simp
qed

text \<open>
  C6. A chain call on an element that is not ready returns \<^verbatim>\<open>GST_FLOW_ERROR\<close> with the
  message "Decompressor not ready.", makes no decompression step, pushes nothing, and
  leaves the element and the downstream peer as they were.
\<close>

theorem chain_not_ready:
  assumes "\<not> ready b"
  shows "gst_bz2dec_chain e b d inb =
           Some \<lparr>flow = GST_FLOW_ERROR, dec = b, down = d, pushed = [],
                 posted = [Decompressor_not_ready], steps = 0, code = BZ_OK\<rparr>"
  using assms by (simp add: gst_bz2dec_chain_def)

theorem chain_not_ready_witness:
  "\<not> ready (fresh 16 :: stored GstBz2dec)
   \<and> gst_bz2dec_chain stored_env (fresh 16) 0 (in_chunk [1, 2, 3, 0]) =
       Some \<lparr>flow = GST_FLOW_ERROR, dec = fresh 16, down = 0, pushed = [],
             posted = [Decompressor_not_ready], steps = 0, code = BZ_OK\<rparr>"
proof -
  have n: "\<not> ready (fresh 16 :: stored GstBz2dec)"
    by (simp add: fresh_def)
  from n chain_not_ready [OF n, of stored_env 0 "in_chunk [1, 2, 3, 0]"]
  show ?thesis by simp
qed

lemma stored_run_3:
  "gst_bz2dec_chain stored_env (started stored_env 16) 0 (in_chunk [1, 2, 3, 0]) =
     Some \<lparr>flow = GST_FLOW_OK,
       dec = \<lparr>buffer_size = 16, ready = True,
              stream = \<lparr>next_in = [], avail_in = 0, total_in_lo32 = 4, total_in_hi32 = 0,
                next_out = [1, 2, 3], avail_out = 13, total_out_lo32 = 3,
                total_out_hi32 = 0, state = Some Idle\<rparr>,
              offset = 3\<rparr>,
       down = 1,
       pushed = [\<lparr>GST_BUFFER_DATA = [1, 2, 3], GST_BUFFER_SIZE = 3, GST_BUFFER_OFFSET = 0\<rparr>],
       posted = [], steps = 1, code = BZ_STREAM_END\<rparr>"
  by (simp add: element_defs stored_defs bz_codes chain_loop_unfold)

lemma stored_env_exact: "exact_alloc stored_env"
  by (simp add: exact_alloc_def stored_defs)

theorem pushed_size_le_buffer_size_witness:
  "exact_alloc stored_env
   \<and> gst_bz2dec_chain stored_env (started stored_env 16) 0 (in_chunk [1, 2, 3, 0]) =
       Some \<lparr>flow = GST_FLOW_OK,
         dec = \<lparr>buffer_size = 16, ready = True,
                stream = \<lparr>next_in = [], avail_in = 0, total_in_lo32 = 4, total_in_hi32 = 0,
                  next_out = [1, 2, 3], avail_out = 13, total_out_lo32 = 3,
                  total_out_hi32 = 0, state = Some Idle\<rparr>,
                offset = 3\<rparr>,
         down = 1,
         pushed = [\<lparr>GST_BUFFER_DATA = [1, 2, 3], GST_BUFFER_SIZE = 3, GST_BUFFER_OFFSET = 0\<rparr>],
         posted = [], steps = 1, code = BZ_STREAM_END\<rparr>
   \<and> pass_pushed stored_env (bind_input (started stored_env 16) (in_chunk [1, 2, 3, 0])) 0
       = [\<lparr>GST_BUFFER_DATA = [1, 2, 3], GST_BUFFER_SIZE = 3, GST_BUFFER_OFFSET = 0\<rparr>]
   \<and> GST_BUFFER_SIZE \<lparr>GST_BUFFER_DATA = [1, 2, 3], GST_BUFFER_SIZE = 3, GST_BUFFER_OFFSET = 0\<rparr>
       \<le> buffer_size (started stored_env 16 :: stored GstBz2dec)
   \<and> buffer_size (started stored_env 16 :: stored GstBz2dec) = 16
   \<and> (0 :: 32 word) < 3"
proof -
  let ?buf = "\<lparr>GST_BUFFER_DATA = [1, 2, 3], GST_BUFFER_SIZE = 3, GST_BUFFER_OFFSET = 0\<rparr>"
  let ?b = "started stored_env 16 :: stored GstBz2dec"
  have pp: "pass_pushed stored_env (bind_input ?b (in_chunk [1, 2, 3, 0])) 0 = [?buf]"
    by (simp add: pass_pushed_def element_defs stored_defs bz_codes word_le_nat_alt)
  have B: "buffer_size ?b = 16"
    by (simp add: element_defs stored_defs bz_codes)
  have "loop_reaches stored_env (bind_input ?b (in_chunk [1, 2, 3, 0])) 0 BZ_OK
      (bind_input ?b (in_chunk [1, 2, 3, 0])) 0 BZ_OK"
    by (rule loop_reaches.here)
  with pp stored_run_3 stored_env_exact B
    pushed_size_le_buffer_size [OF stored_env_exact, of ?b 0 "in_chunk [1, 2, 3, 0]" _ ?buf
      "bind_input ?b (in_chunk [1, 2, 3, 0])" 0 BZ_OK]
  show ?thesis by simp
qed

text \<open>
  The condition on the peer is needed: with a peer that allocates twice the size asked
  for, an element with a \<open>buffer_size\<close> of 4 pushes a buffer of 6 bytes.
\<close>

lemma wide_peer_pushes_more:
  "gst_bz2dec_chain wide_env (started wide_env 4) 0 (in_chunk [1, 2, 3, 4, 5, 6, 0]) =
     Some \<lparr>flow = GST_FLOW_OK,
       dec = \<lparr>buffer_size = 4, ready = True,
              stream = \<lparr>next_in = [], avail_in = 0, total_in_lo32 = 7, total_in_hi32 = 0,
                next_out = [1, 2, 3, 4, 5, 6], avail_out = 2, total_out_lo32 = 6,
                total_out_hi32 = 0, state = Some Idle\<rparr>,
              offset = 6\<rparr>,
       down = 1,
       pushed = [\<lparr>GST_BUFFER_DATA = [1, 2, 3, 4, 5, 6], GST_BUFFER_SIZE = 6,
                  GST_BUFFER_OFFSET = 0\<rparr>],
       posted = [], steps = 1, code = BZ_STREAM_END\<rparr>"
  by (simp add: element_defs stored_defs bz_codes chain_loop_unfold word_le_nat_alt)

section \<open>Offsets stamped on the buffers\<close>

lemma offsets_from_append:
  "offsets_from t (xs @ ys) \<longleftrightarrow> offsets_from t xs \<and> offsets_from (count_after t xs) ys"
  by (induction xs arbitrary: t) auto

lemma count_after_append: "count_after t (xs @ ys) = count_after (count_after t xs) ys"
  by (induction xs arbitrary: t) auto

lemma offsets_from_nth:
  "offsets_from t bufs \<Longrightarrow> k < length bufs \<Longrightarrow>
     GST_BUFFER_OFFSET (bufs ! k) =
       ucast (t + of_nat (\<Sum>buf\<leftarrow>take k bufs. unat (GST_BUFFER_SIZE buf)))"
proof (induction bufs arbitrary: t k)
  case Nil
  then show ?case by simp
next
  case (Cons buf bufs)
  show ?case
  proof (cases k)
    case 0
    with Cons.prems show ?thesis by simp
  next
    case (Suc j)
    with Cons.prems have "offsets_from (t + GST_BUFFER_SIZE buf) bufs" and "j < length bufs"
      by simp_all
    from Cons.IH [OF this] Suc show ?thesis
      by (simp add: add.assoc)
  qed
qed

lemma unat_ucast_32_64: "unat (ucast (w :: 32 word) :: 64 word) = unat w"
proof -
  have "unat w < 2 ^ 32" using unsigned_less [of w] by simp
  then have "unat w < 2 ^ 64" by simp
  then show ?thesis by (simp add: unsigned_ucast_eq take_bit_nat_eq_self)
qed

lemma no_output_of_break:
  fixes B :: "32 word"
  assumes "k \<le> unat B" and "B \<le> B - of_nat k"
  shows "k = 0"
proof (rule ccontr)
  assume "k \<noteq> 0"
  from assms(1) have k: "unat (of_nat k :: 32 word) = k"
    by (metis le_unat_uoi)
  with assms(1) have "of_nat k \<le> B"
    by (simp add: word_le_nat_alt)
  then have "unat (B - of_nat k) = unat B - k"
    using k by (simp add: unat_sub)
  with assms(2) \<open>k \<noteq> 0\<close> assms(1) show False
    by (simp add: word_le_nat_alt)
qed

lemma bz_boundedD:
  assumes "bz_bounded P" and "P z xs c = (r, n, out, z')"
  shows "n \<le> length xs" and "length out \<le> c"
proof -
  from assms(1) have "\<forall>z xs c. case P z xs c of (r, n, out, z') \<Rightarrow> n \<le> length xs \<and> length out \<le> c"
    by (simp add: bz_bounded_def)
  then have "case P z xs c of (r, n, out, z') \<Rightarrow> n \<le> length xs \<and> length out \<le> c"
    by simp
  with assms(2) show "n \<le> length xs" and "length out \<le> c" by simp_all
qed

lemma chain_iter_Inl_offsets:
  assumes "chain_iter e b d = Inl fin"
  shows "offsets_from (total_out_lo32 (stream b)) (pushed fin)"
  using assms
  by (auto simp: chain_iter_def Let_def BZ2_bzDecompress_def
      split: prod.splits if_splits option.splits)

lemma chain_iter_Inl_count:
  assumes "chain_iter e b d = Inl fin" and "bz_bounded (bz_step e)" and "flow fin = GST_FLOW_OK"
  shows "total_out_lo32 (stream (dec fin)) = total_out_lo32 (stream b)" and "pushed fin = []"
    and "offset (dec fin) = offset b"
proof -
  note bd = bz_boundedD(2) [OF assms(2)]
  show "total_out_lo32 (stream (dec fin)) = total_out_lo32 (stream b)"
    using assms(1,3)
    by (auto simp: chain_iter_def Let_def BZ2_bzDecompress_def
        split: prod.splits if_splits option.splits dest!: bd dest: no_output_of_break)
  show "pushed fin = []" "offset (dec fin) = offset b"
    using assms(1,3)
    by (auto simp: chain_iter_def Let_def split: prod.splits if_splits)
qed


lemma chain_loop_offsets:
  assumes "chain_loop e b d r = Some res"
  shows "offsets_from (total_out_lo32 (stream b)) (pushed res)"
  using assms
proof (induction rule: chain_loop_induct)
  case (End b d)
  then show ?case by simp
next
  case (Exit b d r fin)
  then show ?case by (simp add: chain_iter_Inl_offsets)
next
  case (Round b d r out b' d' r' res')
  then show ?case using chain_iter_Inr(3,4) [OF Round(2)] by simp
qed

lemma chain_loop_count:
  assumes "chain_loop e b d r = Some res" and "bz_bounded (bz_step e)"
    and "flow res = GST_FLOW_OK"
  shows "total_out_lo32 (stream (dec res)) = count_after (total_out_lo32 (stream b)) (pushed res)"
  using assms
proof (induction rule: chain_loop_induct)
  case (End b d)
  then show ?case by simp
next
  case (Exit b d r fin)
  then show ?case using chain_iter_Inl_count [OF Exit(2)] by simp
next
  case (Round b d r out b' d' r' res')
  then show ?case using chain_iter_Inr(4) [OF Round(2)] by simp
qed

lemma chain_offsets:
  assumes "gst_bz2dec_chain e b d inb = Some res"
  shows "offsets_from (total_out_lo32 (stream b)) (pushed res)"
proof (cases "ready b")
  case False
  with assms show ?thesis by (auto simp: gst_bz2dec_chain_def)
next
  case True
  with assms have "chain_loop e (bind_input b inb) d BZ_OK = Some res"
    by (simp add: gst_bz2dec_chain_def)
  from chain_loop_offsets [OF this] show ?thesis by (simp add: bind_input_def)
qed

lemma chain_count:
  assumes "gst_bz2dec_chain e b d inb = Some res" and "bz_bounded (bz_step e)"
    and "flow res = GST_FLOW_OK"
  shows "total_out_lo32 (stream (dec res)) = count_after (total_out_lo32 (stream b)) (pushed res)"
proof (cases "ready b")
  case False
  with assms show ?thesis by (auto simp: gst_bz2dec_chain_def)
next
  case True
  with assms have "chain_loop e (bind_input b inb) d BZ_OK = Some res"
    by (simp add: gst_bz2dec_chain_def)
  from chain_loop_count [OF this assms(2,3)] show ?thesis by (simp add: bind_input_def)
qed

lemma feed_chunks_offsets:
  assumes "feed_chunks e b d ins = Some res" and "bz_bounded (bz_step e)"
  shows "offsets_from (total_out_lo32 (stream b)) (pushed res)"
  using assms(1)
proof (induction ins arbitrary: b d res)
  case Nil
  then show ?case by auto
next
  case (Cons inb ins)
  from Cons.prems obtain o1 where o1: "gst_bz2dec_chain e b d inb = Some o1"
    by (auto split: option.splits)
  show ?case
  proof (cases "flow o1 \<noteq> GST_FLOW_OK \<or> ins = []")
    case True
    with Cons.prems o1 have "res = o1" by auto
    with chain_offsets [OF o1] show ?thesis by simp
  next
    case False
    then have ok: "flow o1 = GST_FLOW_OK" by simp
    from False Cons.prems o1 obtain o2 where
      o2: "feed_chunks e (dec o1) (down o1) ins = Some o2" and
      res: "pushed res = pushed o1 @ pushed o2"
      by (auto split: option.splits)
    from Cons.IH [OF o2] chain_count [OF o1 assms(2) ok] chain_offsets [OF o1] res
    show ?thesis by (simp add: offsets_from_append)
  qed
qed

lemma started_counts:
  assumes "fst (bz_start e) = BZ_OK"
  shows "total_out_lo32 (stream (started e n)) = 0" and "offset (started e n) = 0"
    and "ready (started e n)" and "buffer_size (started e n) = n"
  using assms
  by (auto simp: started_def fresh_def gst_bz2dec_decompress_init_def
      gst_bz2dec_decompress_end_def BZ2_bzDecompressInit_def zero_stream_def Let_def
      split: prod.splits)

lemma chain_loop_offset64:
  assumes "chain_loop e b d r = Some res" and "bz_bounded (bz_step e)"
    and "flow res = GST_FLOW_OK"
  shows "offset (dec res) = offset b + of_nat (\<Sum>buf\<leftarrow>pushed res. unat (GST_BUFFER_SIZE buf))"
  using assms
proof (induction rule: chain_loop_induct)
  case (End b d)
  then show ?case by simp
next
  case (Exit b d r fin)
  then show ?case using chain_iter_Inl_count [OF Exit(2)] by simp
next
  case (Round b d r out b' d' r' res')
  then show ?case using chain_iter_Inr(5) [OF Round(2)]
    by simp
qed

lemma chain_offset64:
  assumes "gst_bz2dec_chain e b d inb = Some res" and "bz_bounded (bz_step e)"
    and "flow res = GST_FLOW_OK"
  shows "offset (dec res) = offset b + of_nat (\<Sum>buf\<leftarrow>pushed res. unat (GST_BUFFER_SIZE buf))"
proof (cases "ready b")
  case False
  with assms show ?thesis by (auto simp: gst_bz2dec_chain_def)
next
  case True
  with assms have "chain_loop e (bind_input b inb) d BZ_OK = Some res"
    by (simp add: gst_bz2dec_chain_def)
  from chain_loop_offset64 [OF this assms(2,3)] show ?thesis by (simp add: bind_input_def)
qed

lemma feed_chunks_offset64:
  assumes "feed_chunks e b d ins = Some res" and "bz_bounded (bz_step e)"
    and "flow res = GST_FLOW_OK"
  shows "offset (dec res) = offset b + of_nat (\<Sum>buf\<leftarrow>pushed res. unat (GST_BUFFER_SIZE buf))"
  using assms(1,3)
proof (induction ins arbitrary: b d res)
  case Nil
  then show ?case by auto
next
  case (Cons inb ins)
  from Cons.prems obtain o1 where o1: "gst_bz2dec_chain e b d inb = Some o1"
    by (auto split: option.splits)
  show ?case
  proof (cases "flow o1 \<noteq> GST_FLOW_OK \<or> ins = []")
    case True
    with Cons.prems o1 have "res = o1" by auto
    with chain_offset64 [OF o1 assms(2)] Cons.prems(2) show ?thesis by simp
  next
    case False
    then have ok: "flow o1 = GST_FLOW_OK" by simp
    from False Cons.prems o1 obtain o2 where
      o2: "feed_chunks e (dec o1) (down o1) ins = Some o2" and
      res: "pushed res = pushed o1 @ pushed o2" "dec res = dec o2" "flow res = flow o2"
      by (auto split: option.splits)
    from Cons.IH [OF o2] chain_offset64 [OF o1 assms(2) ok] res Cons.prems(2)
    show ?thesis by simp
  qed
qed

text \<open>
  C10. Feed any input buffers to an element whose session has just been started. The
  offset stamped on the \<open>k\<close>-th buffer pushed is the number of decompressed bytes
  pushed before it, modulo \<open>2 ^ 32\<close>; the element's own \<open>offset\<close>, when every call
  returned \<^verbatim>\<open>GST_FLOW_OK\<close>, is the number of bytes pushed, as a 64-bit count.
\<close>

theorem stamped_offset_mod_2_32:
  assumes "bz_bounded (bz_step e)" and "fst (bz_start e) = BZ_OK"
    and "feed_chunks e (started e n) d ins = Some res"
    and "k < length (pushed res)"
  shows "unat (GST_BUFFER_OFFSET (pushed res ! k)) =
           (\<Sum>buf\<leftarrow>take k (pushed res). unat (GST_BUFFER_SIZE buf)) mod 2 ^ 32
         \<and> (flow res = GST_FLOW_OK \<longrightarrow>
              unat (offset (dec res)) =
                (\<Sum>buf\<leftarrow>pushed res. unat (GST_BUFFER_SIZE buf)) mod 2 ^ 64)"
proof -
  from feed_chunks_offsets [OF assms(3,1)] started_counts(1) [OF assms(2)]
  have "offsets_from 0 (pushed res)" by simp
  from offsets_from_nth [OF this assms(4)]
  have "unat (GST_BUFFER_OFFSET (pushed res ! k)) =
           (\<Sum>buf\<leftarrow>take k (pushed res). unat (GST_BUFFER_SIZE buf)) mod 2 ^ 32"
    by (simp add: unat_ucast_32_64 unat_of_nat)
  moreover have "unat (offset (dec res)) =
      (\<Sum>buf\<leftarrow>pushed res. unat (GST_BUFFER_SIZE buf)) mod 2 ^ 64" if "flow res = GST_FLOW_OK"
    using feed_chunks_offset64 [OF assms(3,1) that] started_counts(2) [OF assms(2)]
    by (simp add: unat_of_nat)
  ultimately show ?thesis by simp
qed

section \<open>The stored format keeps the contract\<close>

lemma stored_step_bounded: "bz_bounded stored_step"
proof -
  have "case stored_step z xs c of (r, n, out, z') \<Rightarrow> n \<le> length xs \<and> length out \<le> c"
    for z xs c
    by (induction z xs c rule: stored_step.induct) (auto split: prod.splits)
  then show ?thesis by (simp add: bz_bounded_def)
qed




lemma stored_feed_two:
  "feed_chunks stored_env (started stored_env 4) 0
     [in_chunk [1, 2, 3, 4, 5, 6], in_chunk [7, 8, 9, 0]] =
   Some \<lparr>flow = GST_FLOW_OK,
     dec = \<lparr>buffer_size = 4, ready = True,
            stream = \<lparr>next_in = [], avail_in = 0, total_in_lo32 = 10, total_in_hi32 = 0,
              next_out = [7, 8, 9], avail_out = 1, total_out_lo32 = 9, total_out_hi32 = 0,
              state = Some Idle\<rparr>,
            offset = 9\<rparr>,
     down = 3,
     pushed = [\<lparr>GST_BUFFER_DATA = [1, 2, 3, 4], GST_BUFFER_SIZE = 4, GST_BUFFER_OFFSET = 0\<rparr>,
               \<lparr>GST_BUFFER_DATA = [5, 6], GST_BUFFER_SIZE = 2, GST_BUFFER_OFFSET = 4\<rparr>,
               \<lparr>GST_BUFFER_DATA = [7, 8, 9], GST_BUFFER_SIZE = 3, GST_BUFFER_OFFSET = 6\<rparr>],
     posted = [], steps = 4, code = BZ_STREAM_END\<rparr>"
  by (simp add: element_defs stored_defs bz_codes chain_loop_unfold word_le_nat_alt)

theorem stamped_offset_mod_2_32_witness:
  "bz_bounded (bz_step stored_env) \<and> fst (bz_start stored_env) = BZ_OK
   \<and> (\<exists>res. feed_chunks stored_env (started stored_env 4) 0
                [in_chunk [1, 2, 3, 4, 5, 6], in_chunk [7, 8, 9, 0]] = Some res
          \<and> length (pushed res) = 3 \<and> flow res = GST_FLOW_OK
          \<and> unat (GST_BUFFER_OFFSET (pushed res ! 2)) = (4 + 2) mod 2 ^ 32
          \<and> unat (offset (dec res)) = (4 + 2 + 3) mod 2 ^ 64)"
proof -
  have b: "bz_bounded (bz_step stored_env)"
    by (simp add: stored_env_def stored_step_bounded)
  have s: "fst (bz_start stored_env) = BZ_OK"
    by (simp add: stored_env_def)
  from stamped_offset_mod_2_32 [OF b s stored_feed_two, of 2] b s stored_feed_two
  show ?thesis by simp
qed

section \<open>Failures inside the loop\<close>

text \<open>
  What the loop returns from a state it reaches is what the whole loop returns, with
  the buffers pushed on the way in front.
\<close>

lemma loop_reaches_returns:
  assumes "loop_reaches e b d r b' d' r'" and "chain_loop e b' d' r' = Some res'"
  shows "\<exists>res. chain_loop e b d r = Some res \<and> flow res = flow res' \<and> dec res = dec res'
           \<and> down res = down res' \<and> posted res = posted res' \<and> code res = code res'
           \<and> (\<exists>pre. pushed res = pre @ pushed res')"
  using assms
proof (induction rule: loop_reaches.induct)
  case (here b d r)
  then show ?case by auto
next
  case (round r b d out b1 d1 r1 b' d' r')
  from round.IH [OF round.prems] obtain res1 pre where
    l: "chain_loop e b1 d1 r1 = Some res1" and
    eq: "flow res1 = flow res'" "dec res1 = dec res'" "down res1 = down res'"
        "posted res1 = posted res'" "code res1 = code res'" "pushed res1 = pre @ pushed res'"
    by blast
  from chain_loop_Inr [OF round.hyps(1,2)] l
  have "chain_loop e b d r = Some (res1\<lparr>pushed := out # pushed res1, steps := Suc (steps res1)\<rparr>)"
    by simp
  with eq show ?case by simp
qed

lemma decompress_init_started:
  assumes "fst (bz_start e) = BZ_OK"
  shows "ready (fst (gst_bz2dec_decompress_init e b))"
    and "offset (fst (gst_bz2dec_decompress_init e b)) = 0"
    and "snd (gst_bz2dec_decompress_init e b) = []"
    and "state (stream (fst (gst_bz2dec_decompress_init e b))) = Some (snd (bz_start e))"
    and "total_out_lo32 (stream (fst (gst_bz2dec_decompress_init e b))) = 0"
    and "total_out_hi32 (stream (fst (gst_bz2dec_decompress_init e b))) = 0"
    and "buffer_size (fst (gst_bz2dec_decompress_init e b)) = buffer_size b"
  using assms
  by (auto simp: gst_bz2dec_decompress_init_def gst_bz2dec_decompress_end_def
      BZ2_bzDecompressInit_def Let_def split: prod.splits)

lemma chain_iter_decode_error:
  assumes "fst (pass_alloc e b d) = GST_FLOW_OK"
    and "fst (BZ2_bzDecompress e ((stream b)\<lparr>next_out := [], avail_out := pass_space e b d\<rparr>)) = rc"
    and "rc \<noteq> BZ_OK" and "rc \<noteq> BZ_STREAM_END"
  shows "\<exists>fin. chain_iter e b d = Inl fin \<and> flow fin = GST_FLOW_ERROR \<and> pushed fin = []
           \<and> code fin = rc
           \<and> dec fin = fst (gst_bz2dec_decompress_init e
                (b\<lparr>stream := snd (BZ2_bzDecompress e
                    ((stream b)\<lparr>next_out := [], avail_out := pass_space e b d\<rparr>))\<rparr>))
           \<and> posted fin = Failed_to_decompress rc # snd (gst_bz2dec_decompress_init e
                (b\<lparr>stream := snd (BZ2_bzDecompress e
                    ((stream b)\<lparr>next_out := [], avail_out := pass_space e b d\<rparr>))\<rparr>))"
  using assms
  by (auto simp: chain_iter_def pass_alloc_def pass_space_def Let_def split: prod.splits)

text \<open>
  C4. Let a pass of the loop, the first or a later one, get its buffer and then a return
  code of the decompression step that is neither \<^verbatim>\<open>BZ_OK\<close> nor \<^verbatim>\<open>BZ_STREAM_END\<close>.
  Then the chain call returns \<^verbatim>\<open>GST_FLOW_ERROR\<close> and posts the decode error; and when
  the restart of the session succeeds, the element it leaves is ready, with offset 0
  and the fresh session.
\<close>

theorem decode_error_reinitializes:
  assumes "ready b"
    and "loop_reaches e (bind_input b inb) d BZ_OK b' d' r'"
    and "r' \<noteq> BZ_STREAM_END"
    and "fst (pass_alloc e b' d') = GST_FLOW_OK"
    and "fst (BZ2_bzDecompress e ((stream b')\<lparr>next_out := [], avail_out := pass_space e b' d'\<rparr>)) = rc"
    and "rc \<noteq> BZ_OK" and "rc \<noteq> BZ_STREAM_END"
    and "fst (bz_start e) = BZ_OK"
  shows "\<exists>res. gst_bz2dec_chain e b d inb = Some res
           \<and> flow res = GST_FLOW_ERROR \<and> posted res = [Failed_to_decompress rc]
           \<and> ready (dec res) \<and> offset (dec res) = 0
           \<and> state (stream (dec res)) = Some (snd (bz_start e))"
proof -
  from chain_iter_decode_error [OF assms(4-7)] obtain fin where
    fin: "chain_iter e b' d' = Inl fin" "flow fin = GST_FLOW_ERROR"
      "dec fin = fst (gst_bz2dec_decompress_init e
          (b'\<lparr>stream := snd (BZ2_bzDecompress e
              ((stream b')\<lparr>next_out := [], avail_out := pass_space e b' d'\<rparr>))\<rparr>))"
      "posted fin = Failed_to_decompress rc # snd (gst_bz2dec_decompress_init e
          (b'\<lparr>stream := snd (BZ2_bzDecompress e
              ((stream b')\<lparr>next_out := [], avail_out := pass_space e b' d'\<rparr>))\<rparr>))"
    by blast
  from chain_loop_Inl [OF assms(3) fin(1)]
  have "chain_loop e b' d' r' = Some fin" .
  from loop_reaches_returns [OF assms(2) this] obtain res where
    res: "chain_loop e (bind_input b inb) d BZ_OK = Some res" "flow res = flow fin"
      "dec res = dec fin" "posted res = posted fin"
    by blast
  from res fin decompress_init_started [OF assms(8)] assms(1) show ?thesis
    by (simp add: gst_bz2dec_chain_def)
qed


lemma stored_corrupt_first_pass:
  "chain_iter stored_env (bind_input (started stored_env 4) (in_chunk [1, 2, 3, 4, 5, 255])) 0 =
     Inr (\<lparr>GST_BUFFER_DATA = [1, 2, 3, 4], GST_BUFFER_SIZE = 4, GST_BUFFER_OFFSET = 0\<rparr>,
          \<lparr>buffer_size = 4, ready = True,
           stream = \<lparr>next_in = [5, 255], avail_in = 2, total_in_lo32 = 4, total_in_hi32 = 0,
             next_out = [1, 2, 3, 4], avail_out = 0, total_out_lo32 = 4, total_out_hi32 = 0,
             state = Some Running\<rparr>,
           offset = 4\<rparr>,
          1, BZ_OK)"
  by (simp add: element_defs stored_defs bz_codes word_le_nat_alt)

theorem decode_error_reinitializes_witness:
  "\<exists>res. gst_bz2dec_chain stored_env (started stored_env 4) 0
            (in_chunk [1, 2, 3, 4, 5, 255]) = Some res
     \<and> flow res = GST_FLOW_ERROR \<and> posted res = [Failed_to_decompress BZ_DATA_ERROR]
     \<and> ready (dec res) \<and> offset (dec res) = 0 \<and> state (stream (dec res)) = Some Running"
proof -
  let ?b1 = "\<lparr>buffer_size = 4, ready = True,
           stream = \<lparr>next_in = [5, 255], avail_in = 2, total_in_lo32 = 4, total_in_hi32 = 0,
             next_out = [1, 2, 3, 4], avail_out = 0, total_out_lo32 = 4, total_out_hi32 = 0,
             state = Some Running\<rparr>,
           offset = 4\<rparr> :: stored GstBz2dec"
  have rdy: "ready (started stored_env 4)"
    by (simp add: element_defs stored_defs bz_codes)
  have "BZ_OK \<noteq> BZ_STREAM_END" by (simp add: bz_codes)
  from loop_reaches.round [OF this stored_corrupt_first_pass loop_reaches.here]
  have reach: "loop_reaches stored_env
      (bind_input (started stored_env 4) (in_chunk [1, 2, 3, 4, 5, 255])) 0 BZ_OK ?b1 1 BZ_OK" .
  have ne: "BZ_OK \<noteq> BZ_STREAM_END" "BZ_DATA_ERROR \<noteq> BZ_OK" "BZ_DATA_ERROR \<noteq> BZ_STREAM_END"
    by (simp_all add: bz_codes)
  have al: "fst (pass_alloc stored_env ?b1 1) = GST_FLOW_OK"
    by (simp add: pass_alloc_def stored_defs)
  have st: "fst (BZ2_bzDecompress stored_env
      ((stream ?b1)\<lparr>next_out := [], avail_out := pass_space stored_env ?b1 1\<rparr>)) = BZ_DATA_ERROR"
    by (simp add: pass_space_def pass_alloc_def element_defs stored_defs bz_codes)
  have start: "fst (bz_start stored_env) = BZ_OK"
    by (simp add: stored_defs)
  from decode_error_reinitializes [OF rdy reach ne(1) al st ne(2,3) start]
  show ?thesis by (simp add: stored_defs)
qed

text \<open>The same for a failed allocation: the element is started again and the flow
  of the allocation is returned.\<close>

lemma alloc_failure_reinitializes:
  assumes "ready b"
    and "loop_reaches e (bind_input b inb) d BZ_OK b' d' r'"
    and "r' \<noteq> BZ_STREAM_END"
    and "fst (pass_alloc e b' d') = fr"
    and "fr \<noteq> GST_FLOW_OK"
    and "fst (bz_start e) = BZ_OK"
  shows "\<exists>res. gst_bz2dec_chain e b d inb = Some res
           \<and> flow res = fr \<and> posted res = []
           \<and> ready (dec res) \<and> offset (dec res) = 0
           \<and> state (stream (dec res)) = Some (snd (bz_start e))"
proof -
  from assms(4,5) have "\<exists>fin. chain_iter e b' d' = Inl fin \<and> flow fin = fr
      \<and> dec fin = fst (gst_bz2dec_decompress_init e b')
      \<and> posted fin = snd (gst_bz2dec_decompress_init e b')"
    by (auto simp: chain_iter_def pass_alloc_def split: prod.splits)
  then obtain fin where
    fin: "chain_iter e b' d' = Inl fin" "flow fin = fr"
      "dec fin = fst (gst_bz2dec_decompress_init e b')"
      "posted fin = snd (gst_bz2dec_decompress_init e b')"
    by blast
  from chain_loop_Inl [OF assms(3) fin(1)]
  have "chain_loop e b' d' r' = Some fin" .
  from loop_reaches_returns [OF assms(2) this] obtain res where
    res: "chain_loop e (bind_input b inb) d BZ_OK = Some res" "flow res = flow fin"
      "dec res = dec fin" "posted res = posted fin"
    by blast
  from res fin decompress_init_started [OF assms(6)] assms(1) show ?thesis
    by (simp add: gst_bz2dec_chain_def)
qed

text \<open>
  C3. The push of the second buffer fails. The chain call returns the flow of the push,
  and the element is left as the step left it: ready, in the middle of the session,
  with the offset of the one buffer that was accepted. It is not started again.
\<close>

theorem push_failure_not_reinitialized:
  "gst_bz2dec_chain unlinked_env (started unlinked_env 4) 0 (in_chunk [1, 2, 3, 4, 5, 6, 0]) =
     Some \<lparr>flow = GST_FLOW_NOT_LINKED,
       dec = \<lparr>buffer_size = 4, ready = True,
              stream = \<lparr>next_in = [], avail_in = 0, total_in_lo32 = 7, total_in_hi32 = 0,
                next_out = [5, 6], avail_out = 2, total_out_lo32 = 6, total_out_hi32 = 0,
                state = Some Idle\<rparr>,
              offset = 4\<rparr>,
       down = 1,
       pushed = [\<lparr>GST_BUFFER_DATA = [1, 2, 3, 4], GST_BUFFER_SIZE = 4, GST_BUFFER_OFFSET = 0\<rparr>,
                 \<lparr>GST_BUFFER_DATA = [5, 6], GST_BUFFER_SIZE = 2, GST_BUFFER_OFFSET = 4\<rparr>],
       posted = [], steps = 2, code = BZ_STREAM_END\<rparr>"
  by (simp add: element_defs stored_defs bz_codes chain_loop_unfold word_le_nat_alt)

text \<open>
  C2. A session that gives \<open>3 * 2 ^ 31\<close> bytes, with a \<open>buffer_size\<close> of \<open>2 ^ 31\<close>: the
  three buffers pushed carry the offsets \<open>0\<close>, \<open>2 ^ 31\<close> and \<open>0\<close> again, while the
  element's own offset ends at \<open>3 * 2 ^ 31\<close>.
\<close>

theorem offsets_wrap_at_2_32:
  "\<exists>res. gst_bz2dec_chain zeros_env (started zeros_env 2147483648) 0 (in_chunk [1]) = Some res
     \<and> flow res = GST_FLOW_OK
     \<and> map GST_BUFFER_SIZE (pushed res) = [2147483648, 2147483648, 2147483648]
     \<and> map GST_BUFFER_OFFSET (pushed res) = [0, 2147483648, 0]
     \<and> offset (dec res) = 6442450944"
  by (simp add: element_defs stored_defs bz_codes chain_loop_unfold word_le_nat_alt)

section \<open>Termination of the loop\<close>

lemma word_pred_less:
  fixes B :: "32 word"
  assumes "B \<noteq> 0"
  shows "\<not> B \<le> B - 1"
  using assms by unat_arith

lemma gush_pass:
  assumes "buffer_size b \<noteq> 0" and "state (stream b) \<noteq> None"
  shows "\<exists>out b' d'. chain_iter gush_env b d = Inr (out, b', d', BZ_OK)
           \<and> buffer_size b' = buffer_size b \<and> state (stream b') \<noteq> None"
  using assms
  by (auto simp: chain_iter_def Let_def BZ2_bzDecompress_def stored_defs bz_codes
      unat_eq_zero word_pred_less)

lemma gush_loop_never_returns:
  assumes "chain_loop gush_env b d r = Some res"
  shows "r = BZ_STREAM_END \<or> buffer_size b = 0 \<or> state (stream b) = None"
  using assms
proof (induction rule: chain_loop_induct)
  case (End b d)
  then show ?case by simp
next
  case (Exit b d r fin)
  show ?case
  proof (rule ccontr)
    assume "\<not> ?thesis"
    then have nz: "buffer_size b \<noteq> 0" "state (stream b) \<noteq> None" by auto
    from gush_pass [OF nz, of d] Exit(2) show False by auto
  qed
next
  case (Round b d r out b' d' r' res')
  show ?case
  proof (rule ccontr)
    assume "\<not> ?thesis"
    then have nz: "buffer_size b \<noteq> 0" "state (stream b) \<noteq> None" by auto
    from gush_pass [OF nz, of d] Round(2,4) nz show False by (auto simp: bz_codes)
  qed
qed

text \<open>
  C9, as stated, fails: a step that gives one byte at every call produces output at
  every step, and the chain call on it never returns.
\<close>

theorem gush_chain_never_returns:
  "gst_bz2dec_chain gush_env (started gush_env 1024) 0 (in_chunk [1, 2, 3]) = None
   \<and> (\<forall>z xs c. fst (gush_step z xs (Suc c)) = BZ_OK
         \<and> length (fst (snd (snd (gush_step z xs (Suc c))))) = 1)"
proof -
  let ?b = "bind_input (started gush_env 1024) (in_chunk [1, 2, 3])"
  have b: "buffer_size ?b \<noteq> 0" "state (stream ?b) \<noteq> None" "ready (started gush_env 1024)"
    by (simp_all add: element_defs stored_defs bz_codes)
  have "chain_loop gush_env ?b 0 BZ_OK = None"
  proof (cases "chain_loop gush_env ?b 0 BZ_OK")
    case None
    then show ?thesis .
  next
    case (Some res)
    from gush_loop_never_returns [OF Some] b show ?thesis by (simp add: bz_codes)
  qed
  with b(3) show ?thesis by (simp add: gst_bz2dec_chain_def)
qed


lemma unat_sub_of_nat:
  fixes a :: "32 word"
  assumes "n \<le> unat a"
  shows "unat (a - of_nat n) = unat a - n"
proof -
  from assms have n: "unat (of_nat n :: 32 word) = n"
    by (metis le_unat_uoi)
  with assms have "of_nat n \<le> a"
    by (simp add: word_le_nat_alt)
  then show ?thesis using n by (simp add: unat_sub)
qed

lemma window_advance:
  assumes "n \<le> length (window s)"
  shows "take (unat (avail_in s - of_nat n)) (drop n (next_in s)) = drop n (window s)"
proof -
  from assms have "n \<le> unat (avail_in s)" by (simp add: window_def)
  then show ?thesis by (simp add: unat_sub_of_nat window_def drop_take)
qed

lemma bz_budgetD:
  assumes "bz_budget P pot" and "P z xs c = (BZ_OK, n, out, z')"
  shows "pot z' (drop n xs) + length out \<le> pot z xs"
proof -
  from assms(1) have "\<forall>z xs c. case P z xs c of (r, n, out, z') \<Rightarrow>
      r = BZ_OK \<longrightarrow> pot z' (drop n xs) + length out \<le> pot z xs"
    by (simp add: bz_budget_def)
  then have "case P z xs c of (r, n, out, z') \<Rightarrow>
      r = BZ_OK \<longrightarrow> pot z' (drop n xs) + length out \<le> pot z xs"
    by simp
  with assms(2) show ?thesis by simp
qed

lemma chain_iter_Inr_step:
  assumes "chain_iter e b d = Inr (out, b', d', r')" and "bz_bounded (bz_step e)"
    and "state (stream b) = Some z"
  shows "\<exists>n ou z'. bz_step e z (window (stream b)) (unat (pass_space e b d)) = (r', n, ou, z')
           \<and> state (stream b') = Some z' \<and> window (stream b') = drop n (window (stream b))
           \<and> ou \<noteq> [] \<and> GST_BUFFER_DATA out = ou \<and> GST_BUFFER_SIZE out = of_nat (length ou)
           \<and> (r' = BZ_OK \<or> r' = BZ_STREAM_END)"
proof -
  let ?c = "pass_space e b d"
  obtain r n ou z' where st: "bz_step e z (window (stream b)) (unat ?c) = (r, n, ou, z')"
    by (cases "bz_step e z (window (stream b)) (unat ?c)") auto
  from bz_boundedD(1) [OF assms(2) st] have n: "n \<le> length (window (stream b))" .
  have w: "window ((stream b)\<lparr>next_out := [], avail_out := ?c\<rparr>) = window (stream b)"
    by (simp add: window_def)
  from assms(1,3) st w window_advance [OF n] show ?thesis
    by (auto simp: chain_iter_def pass_space_def pass_alloc_def Let_def BZ2_bzDecompress_def
        window_def split: prod.splits if_splits)
qed

lemma chain_iter_Inl_steps: "chain_iter e b d = Inl fin \<Longrightarrow> steps fin \<le> 1"
  by (auto simp: chain_iter_def Let_def split: prod.splits if_splits)

lemma chain_loop_budget:
  assumes bd: "bz_bounded (bz_step e)" and bu: "bz_budget (bz_step e) pot"
  shows "state (stream b) = Some z \<Longrightarrow>
    \<exists>res. chain_loop e b d r = Some res \<and> steps res \<le> Suc (pot z (window (stream b)))"
proof (induction "pot z (window (stream b))" arbitrary: b d r z rule: less_induct)
  case less
  show ?case
  proof (cases "r = BZ_STREAM_END")
    case True
    then show ?thesis by (simp add: chain_loop_end)
  next
    case False
    show ?thesis
    proof (cases "chain_iter e b d")
      case (Inl fin)
      with chain_loop_Inl [OF False Inl] chain_iter_Inl_steps [OF Inl] show ?thesis by simp
    next
      case (Inr t)
      obtain out b' d' r' where t: "t = (out, b', d', r')" by (cases t) auto
      with Inr have it: "chain_iter e b d = Inr (out, b', d', r')" by simp
      from chain_iter_Inr_step [OF it bd less.prems] obtain n ou z' where
        st: "bz_step e z (window (stream b)) (unat (pass_space e b d)) = (r', n, ou, z')" and
        b': "state (stream b') = Some z'" "window (stream b') = drop n (window (stream b))" and
        ou: "ou \<noteq> []" and r': "r' = BZ_OK \<or> r' = BZ_STREAM_END"
        by blast
      show ?thesis
      proof (cases "r' = BZ_STREAM_END")
        case True
        with chain_loop_Inr [OF False it] show ?thesis by (simp add: chain_loop_end)
      next
        case False
        with r' have ok: "r' = BZ_OK" by simp
        from bz_budgetD [OF bu st [unfolded ok]] ou b'
        have lt: "pot z' (window (stream b')) < pot z (window (stream b))"
          by (cases ou) auto
        from less.hyps [OF lt b'(1)] obtain res' where
          "chain_loop e b' d' r' = Some res'" "steps res' \<le> Suc (pot z' (window (stream b')))"
          by blast
        with chain_loop_Inr [OF \<open>r \<noteq> BZ_STREAM_END\<close> it] lt show ?thesis by simp
      qed
    qed
  qed
qed

lemma chain_loop_no_session:
  assumes "state (stream b) = None"
  shows "\<exists>res. chain_loop e b d r = Some res \<and> steps res \<le> 1"
proof (cases "r = BZ_STREAM_END")
  case True
  then show ?thesis by (simp add: chain_loop_end)
next
  case False
  from assms have "\<exists>fin. chain_iter e b d = Inl fin"
    by (auto simp: chain_iter_def Let_def BZ2_bzDecompress_def bz_codes split: prod.splits)
  then obtain fin where fin: "chain_iter e b d = Inl fin" by blast
  with chain_loop_Inl [OF False fin] chain_iter_Inl_steps [OF fin] show ?thesis by simp
qed

lemma chain_iter_Inr_conditions:
  assumes "chain_iter e b d = Inr (out, b', d', r')"
  shows "fst (pass_alloc e b d) = GST_FLOW_OK"
    and "r' = fst (BZ2_bzDecompress e
                 ((stream b)\<lparr>next_out := [], avail_out := pass_space e b d\<rparr>))"
    and "r' = BZ_OK \<or> r' = BZ_STREAM_END"
    and "fst (pad_push e (snd (snd (pass_alloc e b d))) out) = GST_FLOW_OK"
  using assms
  by (auto simp: chain_iter_def pass_alloc_def pass_space_def Let_def
      split: prod.splits if_splits)

text \<open>
  C9, amended. When the step keeps within its windows and has a budget of output, the
  chain call returns, whatever the downstream peer does, after at most one step more
  than the budget of the session on the input buffer. The loop goes round again only
  after a pass in which the allocation succeeded, the step returned \<^verbatim>\<open>BZ_OK\<close> or
  \<^verbatim>\<open>BZ_STREAM_END\<close>, at least one byte was produced and the push succeeded; and its
  body is not entered once \<^verbatim>\<open>r\<close> is \<^verbatim>\<open>BZ_STREAM_END\<close>.
\<close>

theorem chain_returns_within_budget:
  assumes "bz_bounded (bz_step e)" and "bz_budget (bz_step e) pot"
  shows "(\<exists>res. gst_bz2dec_chain e b d inb = Some res
           \<and> (\<forall>z. state (stream b) = Some z \<longrightarrow>
                 steps res \<le> Suc (pot z (take (unat (GST_BUFFER_SIZE inb)) (GST_BUFFER_DATA inb)))))
       \<and> (\<forall>b1 d1 out b2 d2 r2. chain_iter e b1 d1 = Inr (out, b2, d2, r2) \<longrightarrow>
             fst (pass_alloc e b1 d1) = GST_FLOW_OK
           \<and> r2 = fst (BZ2_bzDecompress e
                   ((stream b1)\<lparr>next_out := [], avail_out := pass_space e b1 d1\<rparr>))
           \<and> (r2 = BZ_OK \<or> r2 = BZ_STREAM_END) \<and> 0 < GST_BUFFER_SIZE out
           \<and> fst (pad_push e (snd (snd (pass_alloc e b1 d1))) out) = GST_FLOW_OK)
       \<and> (\<forall>b1 d1. chain_loop e b1 d1 BZ_STREAM_END =
             Some \<lparr>flow = GST_FLOW_OK, dec = b1, down = d1, pushed = [], posted = [],
                   steps = 0, code = BZ_STREAM_END\<rparr>)"
proof (intro conjI)
  show "\<exists>res. gst_bz2dec_chain e b d inb = Some res
           \<and> (\<forall>z. state (stream b) = Some z \<longrightarrow>
                 steps res \<le> Suc (pot z (take (unat (GST_BUFFER_SIZE inb)) (GST_BUFFER_DATA inb))))"
  proof (cases "ready b")
    case False
    then show ?thesis by (simp add: gst_bz2dec_chain_def)
  next
    case True
    show ?thesis
    proof (cases "state (stream b)")
      case None
      then have "state (stream (bind_input b inb)) = None" by (simp add: bind_input_def)
      from chain_loop_no_session [OF this, of e d BZ_OK] True None show ?thesis
        by (auto simp: gst_bz2dec_chain_def)
    next
      case (Some z)
      then have "state (stream (bind_input b inb)) = Some z" by (simp add: bind_input_def)
      from chain_loop_budget [OF assms this, of d BZ_OK] True Some show ?thesis
        by (auto simp: gst_bz2dec_chain_def bind_input_def window_def)
    qed
  qed
next
  show "\<forall>b1 d1 out b2 d2 r2. chain_iter e b1 d1 = Inr (out, b2, d2, r2) \<longrightarrow>
             fst (pass_alloc e b1 d1) = GST_FLOW_OK
           \<and> r2 = fst (BZ2_bzDecompress e
                   ((stream b1)\<lparr>next_out := [], avail_out := pass_space e b1 d1\<rparr>))
           \<and> (r2 = BZ_OK \<or> r2 = BZ_STREAM_END) \<and> 0 < GST_BUFFER_SIZE out
           \<and> fst (pad_push e (snd (snd (pass_alloc e b1 d1))) out) = GST_FLOW_OK"
  proof (intro allI impI)
    fix b1 d1 out b2 d2 r2
    assume it: "chain_iter e b1 d1 = Inr (out, b2, d2, r2)"
    from chain_iter_Inr_conditions [OF it] chain_iter_Inr_size(2) [OF it]
    show "fst (pass_alloc e b1 d1) = GST_FLOW_OK
           \<and> r2 = fst (BZ2_bzDecompress e
                   ((stream b1)\<lparr>next_out := [], avail_out := pass_space e b1 d1\<rparr>))
           \<and> (r2 = BZ_OK \<or> r2 = BZ_STREAM_END) \<and> 0 < GST_BUFFER_SIZE out
           \<and> fst (pad_push e (snd (snd (pass_alloc e b1 d1))) out) = GST_FLOW_OK"
      by simp
  qed
next
  show "\<forall>b1 d1. chain_loop e b1 d1 BZ_STREAM_END =
             Some \<lparr>flow = GST_FLOW_OK, dec = b1, down = d1, pushed = [], posted = [],
                   steps = 0, code = BZ_STREAM_END\<rparr>"
    by (simp add: chain_loop_end)
qed

lemma stored_step_io:
  "case stored_step z xs c of (r, n, out, z') \<Rightarrow> length out \<le> n \<and> n \<le> length xs"
  by (induction z xs c rule: stored_step.induct) (auto split: prod.splits)

lemma stored_step_budget: "bz_budget stored_step (\<lambda>z xs. length xs)"
proof -
  have "case stored_step z xs c of (r, n, out, z') \<Rightarrow>
      r = BZ_OK \<longrightarrow> length (drop n xs) + length out \<le> length xs" for z xs c
    using stored_step_io [where z = z and xs = xs and c = c] by (auto split: prod.splits)
  then show ?thesis by (simp add: bz_budget_def)
qed

theorem chain_returns_within_budget_witness:
  "bz_bounded (bz_step stored_env) \<and> bz_budget (bz_step stored_env) (\<lambda>z xs. length xs)
   \<and> (\<exists>res. gst_bz2dec_chain stored_env (started stored_env 4) 0
                (in_chunk [1, 2, 3, 4, 5, 6, 0]) = Some res
          \<and> steps res \<le> Suc (length [1, 2, 3, 4, 5, 6, 0 :: byte]))"
proof -
  have b: "bz_bounded (bz_step stored_env)"
    by (simp add: stored_env_def stored_step_bounded)
  have u: "bz_budget (bz_step stored_env) (\<lambda>z xs. length xs)"
    by (simp add: stored_env_def stored_step_budget)
  have s: "state (stream (started stored_env 4)) = Some Running"
    by (simp add: element_defs stored_defs bz_codes)
  from chain_returns_within_budget [OF b u, of "started stored_env 4" 0
      "in_chunk [1, 2, 3, 4, 5, 6, 0]", THEN conjunct1] s b u
  show ?thesis by (auto simp: in_chunk_def)
qed

section \<open>Draining a stream\<close>

lemma bz_resumableD:
  assumes "bz_resumable P"
  shows "P z (xs @ ys) (c + k) =
          (case P z xs c of (r1, n1, o1, z1) \<Rightarrow>
             if r1 = BZ_OK
             then (case P z1 (drop n1 xs @ ys) (c - length o1 + k) of
                     (r2, n2, o2, z2) \<Rightarrow> (r2, n1 + n2, o1 @ o2, z2))
             else (r1, n1, o1, z1))"
  using assms unfolding bz_resumable_def by blast

lemma bz_greedyD:
  assumes "bz_greedy P" and "P z xs c = (BZ_OK, n, out, z')" and "length out < c"
  shows "n = length xs" and "P z' [] c' = (BZ_OK, 0, [], z')"
  using assms unfolding bz_greedy_def by blast+

lemma bz_idleD:
  assumes "bz_idle_after_end P" and "P z xs c = (BZ_STREAM_END, n, out, z')"
  shows "fst (P z' ys c') \<noteq> BZ_OK" and "fst (P z' ys c') \<noteq> BZ_STREAM_END"
  using assms unfolding bz_idle_after_end_def by blast+

lemma bz_streamingD:
  assumes "bz_streaming P"
  shows "bz_bounded P" and "bz_resumable P" and "bz_greedy P" and "bz_idle_after_end P"
  using assms by (simp_all add: bz_streaming_def)

text \<open>A run that stopped short of its output space is the same in a larger space.\<close>

lemma run_enlarge:
  assumes "bz_streaming P" and "P z W C = (r, n, ys, z')" and "r \<noteq> BZ_OK \<or> length ys < C"
  shows "P z W (C + k) = (r, n, ys, z')"
proof (cases "r = BZ_OK")
  case True
  with assms(3) have lt: "length ys < C" by simp
  from assms(2) True have st: "P z W C = (BZ_OK, n, ys, z')" by simp
  note g = bz_greedyD [OF bz_streamingD(3) [OF assms(1)] st lt]
  from bz_resumableD [OF bz_streamingD(2) [OF assms(1)], of z W "[]" C k] st g True
  show ?thesis by simp
next
  case False
  with bz_resumableD [OF bz_streamingD(2) [OF assms(1)], of z W "[]" C k] assms(2)
  show ?thesis by simp
qed


lemma accepting_alloc:
  assumes "accepting e"
  shows "\<exists>out0 d1. pad_alloc e d off n = (GST_FLOW_OK, out0, d1)"
  using assms unfolding accepting_def by (metis prod.collapse)

lemma accepting_push:
  assumes "accepting e"
  shows "\<exists>d2. pad_push e d buf = (GST_FLOW_OK, d2)"
  using assms unfolding accepting_def by (metis prod.collapse)

lemma accepting_pass_alloc:
  assumes "accepting e"
  shows "fst (pass_alloc e b d) = GST_FLOW_OK"
  using assms by (simp add: accepting_def pass_alloc_def)

lemma pass_space_nonempty:
  assumes "accepting e" and "alloc_nonempty e" and "buffer_size b \<noteq> 0"
  shows "pass_space e b d \<noteq> 0"
  using assms by (simp add: accepting_def alloc_nonempty_def pass_space_def pass_alloc_def)

lemma exact_alloc_nonempty:
  assumes "exact_alloc e"
  shows "alloc_nonempty e"
  using assms by (simp add: exact_alloc_def alloc_nonempty_def)

lemma ucast_of_nat_le:
  fixes B :: "32 word"
  assumes "k \<le> unat B"
  shows "(ucast (of_nat k :: 32 word) :: 64 word) = of_nat k"
proof -
  from assms have "unat (of_nat k :: 32 word) = k" by (metis le_unat_uoi)
  then show ?thesis by (metis Word.of_nat_unat)
qed

lemma some_output_no_break:
  fixes B :: "32 word"
  assumes "k \<le> unat B" and "k \<noteq> 0"
  shows "\<not> B \<le> B - of_nat k"
  using no_output_of_break [OF assms(1)] assms(2) by blast

lemma decodingD:
  assumes "decoding b B z W t off"
  shows "ready b" and "buffer_size b = B" and "state (stream b) = Some z"
    and "window (stream b) = W" and "total_out_lo32 (stream b) = t" and "offset b = off"
  using assms by (simp_all add: decoding_def)

lemma pass_alloc_split:
  assumes "fst (pass_alloc e b d) = GST_FLOW_OK"
  shows "\<exists>out0 d1. pad_alloc e d (offset b) (buffer_size b) = (GST_FLOW_OK, out0, d1)
           \<and> GST_BUFFER_SIZE out0 = pass_space e b d"
  using assms
  by (cases "pad_alloc e d (offset b) (buffer_size b)") (auto simp: pass_alloc_def pass_space_def)

lemma chain_iter_accepting_error:
  assumes "accepting e" and "decoding b B z W t off"
    and "bz_step e z W (unat (pass_space e b d)) = (r, n, ou, z')"
    and "r \<noteq> BZ_OK" and "r \<noteq> BZ_STREAM_END"
  shows "\<exists>fin. chain_iter e b d = Inl fin \<and> flow fin = GST_FLOW_ERROR \<and> pushed fin = []"
proof -
  from pass_alloc_split [OF accepting_pass_alloc [OF assms(1)]] obtain out0 d1 where
    "pad_alloc e d (offset b) (buffer_size b) = (GST_FLOW_OK, out0, d1)"
    "GST_BUFFER_SIZE out0 = pass_space e b d" by blast
  with assms(3-5) decodingD [OF assms(2)] show ?thesis
    by (simp add: chain_iter_def Let_def BZ2_bzDecompress_def window_def split: prod.splits)
qed

lemma chain_iter_accepting_exit:
  assumes "accepting e" and "bz_bounded (bz_step e)" and "decoding b B z W t off"
    and "bz_step e z W (unat (pass_space e b d)) = (r, n, [], z')"
    and "r = BZ_OK \<or> r = BZ_STREAM_END"
  shows "\<exists>fin. chain_iter e b d = Inl fin \<and> flow fin = GST_FLOW_OK \<and> pushed fin = []
           \<and> posted fin = [] \<and> code fin = r \<and> decoding (dec fin) B z' (drop n W) t off"
proof -
  note dc = decodingD [OF assms(3)]
  let ?c = "pass_space e b d"
  from pass_alloc_split [OF accepting_pass_alloc [OF assms(1)]] obtain out0 d1 where
    al: "pad_alloc e d (offset b) (buffer_size b) = (GST_FLOW_OK, out0, d1)"
      "GST_BUFFER_SIZE out0 = ?c" by blast
  from bz_boundedD(1) [OF assms(2,4)] dc(4) have "n \<le> length (window (stream b))" by simp
  from window_advance [OF this] dc(4)
  have w: "take (unat (avail_in (stream b) - of_nat n)) (drop n (next_in (stream b))) = drop n W"
    by simp
  have w1: "window ((stream b)\<lparr>next_out := [], avail_out := ?c\<rparr>) = W"
    using dc(4) by (simp add: window_def)
  from al assms(4,5) dc w w1 show ?thesis
    by (auto simp: chain_iter_def Let_def BZ2_bzDecompress_def decoding_def window_def)
qed

lemma chain_iter_accepting_round:
  assumes "accepting e" and "bz_bounded (bz_step e)" and "decoding b B z W t off"
    and "bz_step e z W (unat (pass_space e b d)) = (r, n, ou, z')"
    and "r = BZ_OK \<or> r = BZ_STREAM_END"
    and "ou \<noteq> []"
  shows "\<exists>b' d'. chain_iter e b d =
             Inr (\<lparr>GST_BUFFER_DATA = ou, GST_BUFFER_SIZE = of_nat (length ou),
                   GST_BUFFER_OFFSET = ucast t\<rparr>, b', d', r)
           \<and> decoding b' B z' (drop n W) (t + of_nat (length ou)) (off + of_nat (length ou))"
proof -
  note dc = decodingD [OF assms(3)]
  let ?c = "pass_space e b d"
  let ?out = "\<lparr>GST_BUFFER_DATA = ou, GST_BUFFER_SIZE = of_nat (length ou),
                   GST_BUFFER_OFFSET = ucast t\<rparr>"
  from pass_alloc_split [OF accepting_pass_alloc [OF assms(1)]] obtain out0 d1 where
    al: "pad_alloc e d (offset b) (buffer_size b) = (GST_FLOW_OK, out0, d1)"
      "GST_BUFFER_SIZE out0 = ?c" by blast
  from accepting_push [OF assms(1)] obtain d2 where
    pu: "pad_push e d1 ?out = (GST_FLOW_OK, d2)" by blast
  from bz_boundedD [OF assms(2,4)] dc(4)
  have n: "n \<le> length (window (stream b))" and k: "length ou \<le> unat ?c" by simp_all
  from window_advance [OF n] dc(4)
  have w: "take (unat (avail_in (stream b) - of_nat n)) (drop n (next_in (stream b))) = drop n W"
    by simp
  have w1: "window ((stream b)\<lparr>next_out := [], avail_out := ?c\<rparr>) = W"
    using dc(4) by (simp add: window_def)
  from assms(6) have "length ou \<noteq> 0" by simp
  note nb = some_output_no_break [OF k this]
  note uc = ucast_of_nat_le [OF k]
  from al pu assms(4,5) dc w w1 nb uc show ?thesis
    by (auto simp: chain_iter_def Let_def BZ2_bzDecompress_def decoding_def window_def)
qed

lemma chunks_of_Nil: "chunks_of t n [] = []"
  by (subst chunks_of.simps) simp

lemma chunks_of_first:
  assumes "ou \<noteq> []" and "length ou \<le> n" and "length ou < n \<longrightarrow> rest = []"
  shows "chunks_of t n (ou @ rest) =
           \<lparr>GST_BUFFER_DATA = ou, GST_BUFFER_SIZE = of_nat (length ou),
            GST_BUFFER_OFFSET = ucast t\<rparr> # chunks_of (t + of_nat (length ou)) n rest"
proof (cases "length ou < n")
  case True
  with assms have "rest = []" by simp
  with assms(1) True show ?thesis
    by (subst chunks_of.simps) (simp add: chunks_of_Nil min_def)
next
  case False
  with assms(2) have "length ou = n" by simp
  with assms(1) show ?thesis
    by (subst chunks_of.simps) (auto simp: min_def)
qed

lemma unat_of_nat_32:
  assumes "n < 2 ^ 32"
  shows "unat (of_nat n :: 32 word) = n"
  using assms by (simp add: unat_of_nat)

lemma buffer_bytes_written:
  fixes c :: "32 word"
  assumes "length ou \<le> unat c"
  shows "buffer_bytes \<lparr>GST_BUFFER_DATA = ou, GST_BUFFER_SIZE = of_nat (length ou),
                        GST_BUFFER_OFFSET = off\<rparr> = ou"
proof -
  from assms have "unat (of_nat (length ou) :: 32 word) = length ou" by (metis le_unat_uoi)
  then show ?thesis by (simp add: buffer_bytes_def)
qed

text \<open>
  The loop on a session that, given room enough, would make the bytes \<open>ys\<close> of the
  input window, with a peer that accepts and allocates no empty buffer: it returns
  \<^verbatim>\<open>GST_FLOW_OK\<close>, and the bytes of what it pushed are \<open>ys\<close>. When the peer allocates
  the size asked for, what it pushed is \<open>ys\<close> cut into buffers of \<open>buffer_size\<close> bytes.
\<close>

lemma drain:
  assumes str: "bz_streaming (bz_step e)" and acc: "accepting e" and an: "alloc_nonempty e"
    and B: "B \<noteq> 0"
  shows "decoding b B z W t off \<Longrightarrow> r0 \<noteq> BZ_STREAM_END \<Longrightarrow>
    bz_step e z W C = (r, n, ys, z') \<Longrightarrow> r = BZ_OK \<or> r = BZ_STREAM_END \<Longrightarrow>
    (r = BZ_OK \<longrightarrow> length ys < C) \<Longrightarrow>
    \<exists>res. chain_loop e b d r0 = Some res \<and> flow res = GST_FLOW_OK
      \<and> concat (map buffer_bytes (pushed res)) = ys
      \<and> (exact_alloc e \<longrightarrow> pushed res = chunks_of t (unat B) ys)
      \<and> posted res = [] \<and> code res = r
      \<and> decoding (dec res) B z' (drop n W) (t + of_nat (length ys)) (off + of_nat (length ys))"
proof (induction "length ys" arbitrary: b d z W t off r0 C r n ys z' rule: less_induct)
  case less
  note bd = bz_streamingD(1) [OF str] and rs = bz_streamingD(2) [OF str]
    and gr = bz_streamingD(3) [OF str]
  let ?c = "pass_space e b d"
  from pass_space_nonempty [OF acc an, of b d] B decodingD(2) [OF less.prems(1)]
  have c0: "0 < unat ?c" by (simp add: unat_gt_0)
  have cB: "unat ?c = unat B" if "exact_alloc e"
    using pass_space_exact [OF that accepting_pass_alloc [OF acc], of b d]
      decodingD(2) [OF less.prems(1)] by simp
  from less.prems(4,5) have "r \<noteq> BZ_OK \<or> length ys < C" by auto
  from run_enlarge [OF str less.prems(3) this, of "unat ?c"]
  have big: "bz_step e z W (unat ?c + C) = (r, n, ys, z')" by (simp add: add.commute)
  obtain r1 n1 o1 z1 where st1: "bz_step e z W (unat ?c) = (r1, n1, o1, z1)"
    by (cases "bz_step e z W (unat ?c)") auto
  from bz_boundedD [OF bd st1] have n1: "n1 \<le> length W" and k1: "length o1 \<le> unat ?c" .
  note bb = buffer_bytes_written [OF k1]
  from bz_resumableD [OF rs, of z W "[]" "unat ?c" C] big st1
  have split: "(r, n, ys, z') =
      (if r1 = BZ_OK
       then (case bz_step e z1 (drop n1 W) (unat ?c - length o1 + C) of
               (r2, n2, o2, z2) \<Rightarrow> (r2, n1 + n2, o1 @ o2, z2))
       else (r1, n1, o1, z1))"
    by simp
  show ?case
  proof (cases "r1 = BZ_OK")
    case True
    obtain r2 n2 o2 z2 where
      st2: "bz_step e z1 (drop n1 W) (unat ?c - length o1 + C) = (r2, n2, o2, z2)"
      by (cases "bz_step e z1 (drop n1 W) (unat ?c - length o1 + C)") auto
    with split True have eq: "r = r2" "n = n1 + n2" "ys = o1 @ o2" "z' = z2" by simp_all
    from st1 True have st1': "bz_step e z W (unat ?c) = (BZ_OK, n1, o1, z1)" by simp
    have starved: "n1 = length W \<and> r2 = BZ_OK \<and> n2 = 0 \<and> o2 = [] \<and> z2 = z1"
      if "length o1 < unat ?c"
    proof -
      note g = bz_greedyD [OF gr st1' that]
      from g(1) st2 g(2) [of "unat ?c - length o1 + C"] show ?thesis by simp
    qed
    show ?thesis
    proof (cases "o1 = []")
      case True
      with c0 have "length o1 < unat ?c" by simp
      note sv = starved [OF this]
      from st1' True have "bz_step e z W (unat ?c) = (BZ_OK, n1, [], z1)" by simp
      from chain_iter_accepting_exit [OF acc bd less.prems(1) this] obtain fin where
        fin: "chain_iter e b d = Inl fin" "flow fin = GST_FLOW_OK" "pushed fin = []"
          "posted fin = []" "code fin = BZ_OK" "decoding (dec fin) B z1 (drop n1 W) t off"
        by auto
      from chain_loop_Inl [OF less.prems(2) fin(1)] fin eq sv True show ?thesis
        by (simp add: chunks_of_Nil)
    next
      case False
      from chain_iter_accepting_round [OF acc bd less.prems(1) st1' _ False]
      obtain b' d' where
        it: "chain_iter e b d =
               Inr (\<lparr>GST_BUFFER_DATA = o1, GST_BUFFER_SIZE = of_nat (length o1),
                     GST_BUFFER_OFFSET = ucast t\<rparr>, b', d', BZ_OK)" and
        dc': "decoding b' B z1 (drop n1 W) (t + of_nat (length o1)) (off + of_nat (length o1))"
        by auto
      from False eq(3) have shorter: "length o2 < length ys" by (cases o1) auto
      have ok: "BZ_OK \<noteq> BZ_STREAM_END" by (simp add: bz_codes)
      from less.prems(4) eq(1) have r2: "r2 = BZ_OK \<or> r2 = BZ_STREAM_END" by simp
      from less.prems(5) eq(1,3)
      have room: "r2 = BZ_OK \<longrightarrow> length o2 < unat ?c - length o1 + C"
        by auto
      from less.hyps [OF shorter dc' ok st2 r2 room, of d'] obtain res' where
        res': "chain_loop e b' d' BZ_OK = Some res'" "flow res' = GST_FLOW_OK"
          "concat (map buffer_bytes (pushed res')) = o2"
          "exact_alloc e \<longrightarrow> pushed res' = chunks_of (t + of_nat (length o1)) (unat B) o2"
          "posted res' = []" "code res' = r2"
          "decoding (dec res') B z2 (drop n2 (drop n1 W))
             (t + of_nat (length o1) + of_nat (length o2))
             (off + of_nat (length o1) + of_nat (length o2))"
        by blast
      have ch: "chunks_of t (unat B) (o1 @ o2) =
          \<lparr>GST_BUFFER_DATA = o1, GST_BUFFER_SIZE = of_nat (length o1),
            GST_BUFFER_OFFSET = ucast t\<rparr> # chunks_of (t + of_nat (length o1)) (unat B) o2"
        if ex: "exact_alloc e"
      proof -
        from k1 cB [OF ex] have k: "length o1 \<le> unat B" by simp
        from starved cB [OF ex] have "length o1 < unat B \<longrightarrow> o2 = []" by simp
        from chunks_of_first [OF False k this] show ?thesis .
      qed
      from chain_loop_Inr [OF less.prems(2) it] res' eq ch bb show ?thesis
        by (auto simp: add.assoc add.commute [of n2 n1])
    qed
  next
    case False
    with split have eq: "r = r1" "n = n1" "ys = o1" "z' = z1" by simp_all
    with less.prems(4) False have e1: "r1 = BZ_STREAM_END" by simp
    from st1 e1 have st1': "bz_step e z W (unat ?c) = (BZ_STREAM_END, n1, o1, z1)" by simp
    show ?thesis
    proof (cases "o1 = []")
      case True
      with st1' have "bz_step e z W (unat ?c) = (BZ_STREAM_END, n1, [], z1)" by simp
      from chain_iter_accepting_exit [OF acc bd less.prems(1) this] obtain fin where
        fin: "chain_iter e b d = Inl fin" "flow fin = GST_FLOW_OK" "pushed fin = []"
          "posted fin = []" "code fin = BZ_STREAM_END" "decoding (dec fin) B z1 (drop n1 W) t off"
        by auto
      from chain_loop_Inl [OF less.prems(2) fin(1)] fin eq e1 True show ?thesis
        by (simp add: chunks_of_Nil)
    next
      case False
      from chain_iter_accepting_round [OF acc bd less.prems(1) st1' _ False]
      obtain b' d' where
        it: "chain_iter e b d =
               Inr (\<lparr>GST_BUFFER_DATA = o1, GST_BUFFER_SIZE = of_nat (length o1),
                     GST_BUFFER_OFFSET = ucast t\<rparr>, b', d', BZ_STREAM_END)" and
        dc': "decoding b' B z1 (drop n1 W) (t + of_nat (length o1)) (off + of_nat (length o1))"
        by auto
      have ch: "chunks_of t (unat B) o1 =
          [\<lparr>GST_BUFFER_DATA = o1, GST_BUFFER_SIZE = of_nat (length o1),
            GST_BUFFER_OFFSET = ucast t\<rparr>]"
        if ex: "exact_alloc e"
      proof -
        from k1 cB [OF ex] have k: "length o1 \<le> unat B" by simp
        from chunks_of_first [OF False k, of "[]" t] show ?thesis
          by (simp add: chunks_of_Nil)
      qed
      from chain_loop_Inr [OF less.prems(2) it] dc' eq e1 ch bb show ?thesis
        by (auto simp: chain_loop_end)
    qed
  qed
qed

lemma decoding_bind_input:
  assumes "decoding b B z W t off" and "length xs < 2 ^ 32"
  shows "decoding (bind_input b (in_chunk xs)) B z xs t off"
  using assms by (simp add: decoding_def bind_input_def in_chunk_def window_def unat_of_nat_32)

lemma decoding_bind_any:
  assumes "decoding b B z W t off"
  shows "decoding (bind_input b inb) B z (window (stream (bind_input b inb))) t off"
  using assms by (simp add: decoding_def bind_input_def)

lemma chain_drain:
  assumes str: "bz_streaming (bz_step e)" and acc: "accepting e" and an: "alloc_nonempty e"
    and B: "B \<noteq> 0"
    and dc: "decoding b B z W t off" and len: "length xs < 2 ^ 32"
    and st: "bz_step e z xs C = (r, n, ys, z')"
    and r: "r = BZ_OK \<or> r = BZ_STREAM_END" and room: "r = BZ_OK \<longrightarrow> length ys < C"
  shows "\<exists>res. gst_bz2dec_chain e b d (in_chunk xs) = Some res \<and> flow res = GST_FLOW_OK
      \<and> concat (map buffer_bytes (pushed res)) = ys
      \<and> (exact_alloc e \<longrightarrow> pushed res = chunks_of t (unat B) ys)
      \<and> posted res = [] \<and> code res = r
      \<and> decoding (dec res) B z' (drop n xs) (t + of_nat (length ys)) (off + of_nat (length ys))"
proof -
  have ok: "BZ_OK \<noteq> BZ_STREAM_END" by (simp add: bz_codes)
  from drain [OF str acc an B decoding_bind_input [OF dc len] ok st r room, of d]
    decodingD(1) [OF dc]
  show ?thesis by (simp add: gst_bz2dec_chain_def)
qed

lemma chain_rejects_when_idle:
  assumes acc: "accepting e" and dc: "decoding b B z W t off"
    and idle: "\<And>ys c. fst (bz_step e z ys c) \<noteq> BZ_OK \<and> fst (bz_step e z ys c) \<noteq> BZ_STREAM_END"
  shows "\<exists>res. gst_bz2dec_chain e b d inb = Some res \<and> flow res \<noteq> GST_FLOW_OK
           \<and> pushed res = []"
proof -
  let ?b = "bind_input b inb"
  let ?c = "unat (pass_space e ?b d)"
  obtain r n ou z' where
    st: "bz_step e z (window (stream ?b)) ?c = (r, n, ou, z')"
    by (cases "bz_step e z (window (stream ?b)) ?c") auto
  with idle [of "window (stream ?b)" ?c] have "r \<noteq> BZ_OK" "r \<noteq> BZ_STREAM_END"
    by simp_all
  from chain_iter_accepting_error [OF acc decoding_bind_any [OF dc] st this]
  obtain fin where fin: "chain_iter e ?b d = Inl fin" "flow fin = GST_FLOW_ERROR"
    "pushed fin = []" by blast
  have "BZ_OK \<noteq> BZ_STREAM_END" by (simp add: bz_codes)
  from chain_loop_Inl [OF this fin(1)] fin decodingD(1) [OF dc] show ?thesis
    by (simp add: gst_bz2dec_chain_def)
qed

text \<open>
  Feeding a stream in pieces: whatever the pieces, the bytes pushed are the bytes the
  stream decompresses to.
\<close>

lemma feed_drain:
  assumes str: "bz_streaming (bz_step e)" and acc: "accepting e" and an: "alloc_nonempty e"
    and B: "B \<noteq> 0"
  shows "cs \<noteq> [] \<Longrightarrow> length (concat cs) < 2 ^ 32 \<Longrightarrow> decoding b B z W t off \<Longrightarrow>
    bz_step e z (concat cs) C = (BZ_STREAM_END, n, ys, z') \<Longrightarrow>
    \<exists>res. feed_chunks e b d (map in_chunk cs) = Some res
      \<and> concat (map buffer_bytes (pushed res)) = ys"
proof (induction cs arbitrary: b d z W t off C n ys z')
  case Nil
  then show ?case by simp
next
  case (Cons c cs)
  note bd = bz_streamingD(1) [OF str] and rs = bz_streamingD(2) [OF str]
    and gr = bz_streamingD(3) [OF str] and idl = bz_streamingD(4) [OF str]
  have ne: "BZ_STREAM_END \<noteq> BZ_OK" by (simp add: bz_codes)
  from Cons.prems(2) have lc: "length c < 2 ^ 32" and lcs: "length (concat cs) < 2 ^ 32"
    by simp_all
  from Cons.prems(4) have whole: "bz_step e z (c @ concat cs) C = (BZ_STREAM_END, n, ys, z')"
    by simp
  from bz_boundedD(2) [OF bd whole] have ly: "length ys < Suc C" by simp
  from run_enlarge [OF str whole, of 1] ne
  have whole1: "bz_step e z (c @ concat cs) (Suc C) = (BZ_STREAM_END, n, ys, z')" by simp
  obtain r1 n1 o1 z1 where st1: "bz_step e z c (Suc C) = (r1, n1, o1, z1)"
    by (cases "bz_step e z c (Suc C)") auto
  from bz_resumableD [OF rs, of z c "concat cs" "Suc C" 0] whole1 st1
  have split: "(BZ_STREAM_END, n, ys, z') =
      (if r1 = BZ_OK
       then (case bz_step e z1 (drop n1 c @ concat cs) (Suc C - length o1) of
               (r2, n2, o2, z2) \<Rightarrow> (r2, n1 + n2, o1 @ o2, z2))
       else (r1, n1, o1, z1))"
    by simp
  show ?case
  proof (cases "r1 = BZ_OK")
    case True
    obtain r2 n2 o2 z2 where
      st2: "bz_step e z1 (drop n1 c @ concat cs) (Suc C - length o1) = (r2, n2, o2, z2)"
      by (cases "bz_step e z1 (drop n1 c @ concat cs) (Suc C - length o1)") auto
    with split True have eq: "r2 = BZ_STREAM_END" "ys = o1 @ o2" "z' = z2" by simp_all
    from eq(2) ly have lo: "length o1 < Suc C" by simp
    from st1 True have st1': "bz_step e z c (Suc C) = (BZ_OK, n1, o1, z1)" by simp
    note g = bz_greedyD [OF gr st1' lo]
    from st2 g(1) eq(1) have rest: "bz_step e z1 (concat cs) (Suc C - length o1) =
        (BZ_STREAM_END, n2, o2, z2)" by simp
    from chain_drain [OF str acc an B Cons.prems(3) lc st1' _ _, of d] lo obtain res1 where
      res1: "gst_bz2dec_chain e b d (in_chunk c) = Some res1" "flow res1 = GST_FLOW_OK"
        "concat (map buffer_bytes (pushed res1)) = o1"
        "decoding (dec res1) B z1 (drop n1 c) (t + of_nat (length o1)) (off + of_nat (length o1))"
      by auto
    have "cs \<noteq> []"
    proof
      assume "cs = []"
      with rest g(2) [of "Suc C - length o1"] ne show False by simp
    qed
    from Cons.IH [OF this lcs res1(4) rest, of "down res1"] obtain res2 where
      res2: "feed_chunks e (dec res1) (down res1) (map in_chunk cs) = Some res2"
        "concat (map buffer_bytes (pushed res2)) = o2"
      by blast
    from res1 res2 \<open>cs \<noteq> []\<close> eq(2) show ?thesis by simp
  next
    case False
    with split have eq: "r1 = BZ_STREAM_END" "ys = o1" "z' = z1" by simp_all
    from st1 eq(1) have st1': "bz_step e z c (Suc C) = (BZ_STREAM_END, n1, o1, z1)" by simp
    from chain_drain [OF str acc an B Cons.prems(3) lc st1' _ _, of d] ne obtain res1 where
      res1: "gst_bz2dec_chain e b d (in_chunk c) = Some res1" "flow res1 = GST_FLOW_OK"
        "concat (map buffer_bytes (pushed res1)) = o1"
        "decoding (dec res1) B z1 (drop n1 c) (t + of_nat (length o1)) (off + of_nat (length o1))"
      by auto
    show ?thesis
    proof (cases cs)
      case Nil
      with res1 eq(2) show ?thesis by simp
    next
      case (Cons c2 cs2)
      from bz_idleD [OF idl st1'] have
        "\<And>ys c. fst (bz_step e z1 ys c) \<noteq> BZ_OK \<and> fst (bz_step e z1 ys c) \<noteq> BZ_STREAM_END"
        by simp
      from chain_rejects_when_idle [OF acc res1(4) this, of "down res1" "in_chunk c2"]
      obtain res2 where
        res2: "gst_bz2dec_chain e (dec res1) (down res1) (in_chunk c2) = Some res2"
          "flow res2 \<noteq> GST_FLOW_OK" "pushed res2 = []"
        by blast
      from res1 res2 Cons eq(2) show ?thesis by simp
    qed
  qed
qed

lemma stored_step_resumes:
  "stored_step z (xs @ ys) (c + k) =
     (case stored_step z xs c of (r1, n1, o1, z1) \<Rightarrow>
        if r1 = BZ_OK
        then (case stored_step z1 (drop n1 xs @ ys) (c - length o1 + k) of
                (r2, n2, o2, z2) \<Rightarrow> (r2, n1 + n2, o1 @ o2, z2))
        else (r1, n1, o1, z1))"
proof (induction z xs c arbitrary: k rule: stored_step.induct)
  case (1 xs c)
  then show ?case by (simp add: bz_codes)
next
  case (2 c)
  then show ?case by (simp split: prod.splits)
next
  case (3 x xs c)
  show ?case
  proof (cases "x = 0 \<or> x = 255")
    case True
    then show ?thesis by (auto simp: bz_codes)
  next
    case False
    show ?thesis
    proof (cases c)
      case 0
      with False show ?thesis by (simp split: prod.splits)
    next
      case (Suc c')
      from False have p: "x \<noteq> 0" "x \<noteq> 255" by simp_all
      from Suc have "c \<noteq> 0" by simp
      note ih = "3.IH" [OF p this, of k, unfolded Suc diff_Suc_1]
      from p Suc show ?thesis
        by (simp add: ih split: prod.splits)
    qed
  qed
qed

lemma stored_step_resumable: "bz_resumable stored_step"
  unfolding bz_resumable_def using stored_step_resumes by blast

lemma stored_step_starves:
  "stored_step z xs c = (BZ_OK, n, out, z') \<Longrightarrow> length out < c \<Longrightarrow>
     n = length xs \<and> z' = Running"
proof (induction z xs c arbitrary: n out z' rule: stored_step.induct)
  case (1 xs c)
  then show ?case by (simp add: bz_codes)
next
  case (2 c)
  then show ?case by simp
next
  case (3 x xs c)
  then show ?case
    by (auto simp: bz_codes split: if_splits prod.splits)
qed

lemma stored_step_greedy: "bz_greedy stored_step"
  unfolding bz_greedy_def using stored_step_starves by fastforce

lemma stored_step_ends_idle:
  "stored_step z xs c = (BZ_STREAM_END, n, out, z') \<Longrightarrow> z' = Idle"
proof (induction z xs c arbitrary: n out z' rule: stored_step.induct)
  case (1 xs c)
  then show ?case by simp
next
  case (2 c)
  then show ?case by (simp add: bz_codes)
next
  case (3 x xs c)
  then show ?case
    by (auto simp: bz_codes split: if_splits prod.splits)
qed

lemma stored_step_idle: "bz_idle_after_end stored_step"
  unfolding bz_idle_after_end_def
proof (intro allI impI)
  fix z xs c r n out z' ys c'
  assume "stored_step z xs c = (r, n, out, z') \<and> r = BZ_STREAM_END"
  then have "z' = Idle" using stored_step_ends_idle by blast
  then show "fst (stored_step z' ys c') \<noteq> BZ_OK \<and> fst (stored_step z' ys c') \<noteq> BZ_STREAM_END"
    by (simp add: bz_codes)
qed

lemma stored_step_streaming: "bz_streaming stored_step"
  by (simp add: bz_streaming_def stored_step_bounded stored_step_resumable
      stored_step_greedy stored_step_idle)

lemma stored_env_accepting: "accepting stored_env"
  by (simp add: accepting_def stored_defs)


lemma started_decoding:
  assumes "bz_start e = (BZ_OK, z0)"
  shows "decoding (started e B) B z0 [] 0 0"
  using assms
  by (simp add: decoding_def started_def fresh_def gst_bz2dec_decompress_init_def
      gst_bz2dec_decompress_end_def BZ2_bzDecompressInit_def zero_stream_def window_def Let_def)

lemma chunks_of_40:
  assumes "length ys = 40"
  shows "chunks_of 0 16 ys =
    [\<lparr>GST_BUFFER_DATA = take 16 ys, GST_BUFFER_SIZE = 16, GST_BUFFER_OFFSET = 0\<rparr>,
     \<lparr>GST_BUFFER_DATA = take 16 (drop 16 ys), GST_BUFFER_SIZE = 16, GST_BUFFER_OFFSET = 16\<rparr>,
     \<lparr>GST_BUFFER_DATA = drop 32 ys, GST_BUFFER_SIZE = 8, GST_BUFFER_OFFSET = 32\<rparr>]"
proof -
  from assms have ne: "ys \<noteq> []" "drop 16 ys \<noteq> []" "drop 32 ys \<noteq> []" by auto
  have "chunks_of 32 16 (drop 32 ys) =
      [\<lparr>GST_BUFFER_DATA = drop 32 ys, GST_BUFFER_SIZE = 8, GST_BUFFER_OFFSET = 32\<rparr>]"
    using assms ne(3) by (subst chunks_of.simps) (simp add: chunks_of_Nil)
  then have "chunks_of 16 16 (drop 16 ys) =
      [\<lparr>GST_BUFFER_DATA = take 16 (drop 16 ys), GST_BUFFER_SIZE = 16, GST_BUFFER_OFFSET = 16\<rparr>,
       \<lparr>GST_BUFFER_DATA = drop 32 ys, GST_BUFFER_SIZE = 8, GST_BUFFER_OFFSET = 32\<rparr>]"
    using assms ne(2) by (subst chunks_of.simps) simp
  then show ?thesis
    using assms ne(1) by (subst chunks_of.simps) simp
qed

text \<open>
  C7. The element has just been started with a \<open>buffer_size\<close> of 16, the downstream
  peer accepts everything and allocates buffers of the size asked for, and the input
  buffer holds a stream that decompresses to 40 bytes \<open>ys\<close> (a step with enough room
  reaches the stream end having produced them). Then the chain call returns \<^verbatim>\<open>GST_FLOW_OK\<close> with \<^verbatim>\<open>r == BZ_STREAM_END\<close>, having pushed
  three buffers, of sizes 16, 16, 8, at offsets 0, 16, 32, holding \<open>ys\<close> in order.
\<close>

theorem forty_bytes_three_buffers:
  assumes "bz_streaming (bz_step e)" and "accepting e" and "exact_alloc e"
    and "bz_start e = (BZ_OK, z0)" and "length xs < 2 ^ 32"
    and "bz_step e z0 xs C = (BZ_STREAM_END, n, ys, z')" and "length ys = 40"
  shows "\<exists>res. gst_bz2dec_chain e (started e 16) d (in_chunk xs) = Some res
     \<and> flow res = GST_FLOW_OK \<and> code res = BZ_STREAM_END
     \<and> map GST_BUFFER_SIZE (pushed res) = [16, 16, 8]
     \<and> map GST_BUFFER_OFFSET (pushed res) = [0, 16, 32]
     \<and> map GST_BUFFER_DATA (pushed res) = [take 16 ys, take 16 (drop 16 ys), drop 32 ys]"
proof -
  have "(16 :: 32 word) \<noteq> 0" by simp
  from chain_drain [OF assms(1,2) exact_alloc_nonempty [OF assms(3)] this
      started_decoding [OF assms(4)] assms(5,6), of d] assms(3)
  obtain res where
    res: "gst_bz2dec_chain e (started e 16) d (in_chunk xs) = Some res"
      "flow res = GST_FLOW_OK" "pushed res = chunks_of 0 (unat (16 :: 32 word)) ys"
      "code res = BZ_STREAM_END"
    by (auto simp: bz_codes)
  from res(3) chunks_of_40 [OF assms(7)] have "pushed res =
    [\<lparr>GST_BUFFER_DATA = take 16 ys, GST_BUFFER_SIZE = 16, GST_BUFFER_OFFSET = 0\<rparr>,
     \<lparr>GST_BUFFER_DATA = take 16 (drop 16 ys), GST_BUFFER_SIZE = 16, GST_BUFFER_OFFSET = 16\<rparr>,
     \<lparr>GST_BUFFER_DATA = drop 32 ys, GST_BUFFER_SIZE = 8, GST_BUFFER_OFFSET = 32\<rparr>]"
    by simp
  with res(1,2,4) show ?thesis by simp
qed

theorem forty_bytes_three_buffers_witness:
  "bz_streaming (bz_step stored_env) \<and> accepting stored_env \<and> exact_alloc stored_env
   \<and> bz_step stored_env Running (pattern40 @ [0]) 40 = (BZ_STREAM_END, 41, pattern40, Idle)
   \<and> (\<exists>res. gst_bz2dec_chain stored_env (started stored_env 16) 0
                (in_chunk (pattern40 @ [0])) = Some res
          \<and> flow res = GST_FLOW_OK \<and> code res = BZ_STREAM_END
          \<and> map GST_BUFFER_SIZE (pushed res) = [16, 16, 8]
          \<and> map GST_BUFFER_OFFSET (pushed res) = [0, 16, 32]
          \<and> map GST_BUFFER_DATA (pushed res) =
               [[8, 15, 22, 29, 36, 43, 50, 57, 64, 71, 78, 85, 92, 99, 106, 113],
                [120, 127, 134, 141, 148, 155, 162, 169, 176, 183, 190, 197, 4, 11, 18, 25],
                [32, 39, 46, 53, 60, 67, 74, 81]])"
proof -
  have s: "bz_streaming (bz_step stored_env)"
    by (simp add: stored_env_def stored_step_streaming)
  have st: "bz_start stored_env = (BZ_OK, Running)"
    by (simp add: stored_env_def)
  have run: "bz_step stored_env Running (pattern40 @ [0]) 40 =
      (BZ_STREAM_END, 41, pattern40, Idle)"
    by (simp add: stored_env_def pattern40_def bz_codes)
  have len: "length (pattern40 @ [0]) < 2 ^ 32" "length pattern40 = 40"
    by (simp_all add: pattern40_def)
  from forty_bytes_three_buffers [OF s stored_env_accepting stored_env_exact st len(1) run
      len(2), of 0]
    s stored_env_accepting stored_env_exact run
  show ?thesis by (simp add: pattern40_def)
qed

text \<open>
  C1. The element is ready on a session, with a \<open>buffer_size\<close> that is not zero, and
  the downstream peer accepts everything and allocates no empty buffer when asked for
  a size that is not zero (the buffers may be of any other size, and of a different
  size each time). Let \<open>cs\<close> be the pieces of a stream that a
  step with enough room decompresses to its end, giving the bytes \<open>ys\<close>. Then feeding
  the pieces one by one and feeding the whole stream as one buffer both return, and
  the bytes of the buffers pushed, put end to end, are \<open>ys\<close> both times.
\<close>

theorem chunking_invariance:
  assumes "bz_streaming (bz_step e)" and "accepting e" and "alloc_nonempty e"
    and "ready b" and "buffer_size b \<noteq> 0" and "state (stream b) = Some z"
    and "cs \<noteq> []" and "length (concat cs) < 2 ^ 32"
    and "bz_step e z (concat cs) C = (BZ_STREAM_END, n, ys, z')"
  shows "\<exists>res1 res2.
      feed_chunks e b d (map in_chunk cs) = Some res1
    \<and> feed_chunks e b d [in_chunk (concat cs)] = Some res2
    \<and> concat (map buffer_bytes (pushed res1)) = concat (map buffer_bytes (pushed res2))
    \<and> concat (map buffer_bytes (pushed res2)) = ys"
proof -
  from assms(4,6) have dc: "decoding b (buffer_size b) z (window (stream b))
      (total_out_lo32 (stream b)) (offset b)"
    by (simp add: decoding_def)
  from feed_drain [OF assms(1,2,3,5,7,8) dc assms(9), of d] obtain res1 where
    r1: "feed_chunks e b d (map in_chunk cs) = Some res1"
      "concat (map buffer_bytes (pushed res1)) = ys"
    by blast
  from assms(8,9) have "[concat cs] \<noteq> []" "length (concat [concat cs]) < 2 ^ 32"
    "bz_step e z (concat [concat cs]) C = (BZ_STREAM_END, n, ys, z')"
    by simp_all
  from feed_drain [OF assms(1,2,3,5) this(1,2) dc this(3), of d] obtain res2 where
    r2: "feed_chunks e b d (map in_chunk [concat cs]) = Some res2"
      "concat (map buffer_bytes (pushed res2)) = ys"
    by blast
  from r1 r2 show ?thesis by simp
qed

theorem chunking_invariance_witness:
  "bz_streaming (bz_step stored_env) \<and> accepting stored_env \<and> alloc_nonempty stored_env
   \<and> bz_step stored_env Running (concat [[1, 2, 3], [4, 5], [6, 7, 0]]) 7 =
       (BZ_STREAM_END, 8, [1, 2, 3, 4, 5, 6, 7], Idle)
   \<and> (\<exists>res1 res2.
        feed_chunks stored_env (started stored_env 4) 0
          [in_chunk [1, 2, 3], in_chunk [4, 5], in_chunk [6, 7, 0]] = Some res1
      \<and> feed_chunks stored_env (started stored_env 4) 0
          [in_chunk [1, 2, 3, 4, 5, 6, 7, 0]] = Some res2
      \<and> concat (map buffer_bytes (pushed res1)) = concat (map buffer_bytes (pushed res2))
      \<and> concat (map buffer_bytes (pushed res2)) = [1, 2, 3, 4, 5, 6, 7])"
proof -
  have s: "bz_streaming (bz_step stored_env)"
    by (simp add: stored_env_def stored_step_streaming)
  have b: "ready (started stored_env 4)" "buffer_size (started stored_env 4 :: stored GstBz2dec) \<noteq> 0"
    "state (stream (started stored_env 4)) = Some Running"
    by (simp_all add: element_defs stored_defs bz_codes)
  have c: "[[1, 2, 3], [4, 5], [6, 7, 0 :: byte]] \<noteq> []"
    "length (concat [[1, 2, 3], [4, 5], [6, 7, 0 :: byte]]) < 2 ^ 32"
    by simp_all
  have run: "bz_step stored_env Running (concat [[1, 2, 3], [4, 5], [6, 7, 0]]) 7 =
       (BZ_STREAM_END, 8, [1, 2, 3, 4, 5, 6, 7], Idle)"
    by (simp add: stored_env_def bz_codes)
  note an = exact_alloc_nonempty [OF stored_env_exact]
  from chunking_invariance [OF s stored_env_accepting an b c run, of 0]
    s stored_env_accepting an run
  show ?thesis by simp
qed

end
